theory Spec2Isabelle
  imports Main "HOL-Library.Word"
begin

unbundle bit_operations_syntax

section \<open>The contiguous frame pool of cont\_frame\_pool.C\<close>

text \<open>
  The allocator keeps two bits per frame in a byte array that lives in physical memory.
  The widths are those of a 32-bit target: \<open>unsigned long\<close>, \<open>unsigned int\<close> and a
  pointer are 32-bit words, \<open>unsigned char\<close> is a byte. Arithmetic on them wraps around,
  as the word types do. Physical memory is a total function from addresses to bytes:
  \<open>bitmap[i]\<close> is the byte at address \<open>bitmap + i\<close>, whatever \<open>i\<close> is.
\<close>

type_synonym ulong = "32 word"
type_synonym uint = "32 word"
type_synonym uchar = "8 word"
type_synonym memory = "ulong \<Rightarrow> uchar"

text \<open>
  Modelled from the spec: the enumeration \<open>FrameState\<close> is declared in
  cont\_frame\_pool.H, which is not among the sources. The spec names the three states
  Free, Used and HeadOfSequence (\<open>HoS\<close> in the code) in this order and requires the value
  0 for Free. A two-bit field can also hold 3, which no enumerator names; the cast
  \<open>static_cast<FrameState>(two_bits)\<close> then yields a fourth value, \<open>Unnamed\<close> here.
\<close>

datatype FrameState = Free | Used | HoS | Unnamed

definition state_code :: "FrameState \<Rightarrow> uchar" where
  "state_code s = (case s of Free \<Rightarrow> 0 | Used \<Rightarrow> 1 | HoS \<Rightarrow> 2 | Unnamed \<Rightarrow> 3)"

definition state_of_code :: "uchar \<Rightarrow> FrameState" where
  "state_of_code c =
     (if c = 0 then Free else if c = 1 then Used else if c = 2 then HoS else Unnamed)"

text \<open>The fields of a pool object. \<open>bitmap\<close> is the address the pointer holds.\<close>

record ContFramePool =
  base_frame_no :: ulong
  n_frames :: ulong
  info_frame_no :: ulong
  bitmap :: ulong
  bitmap_size :: ulong

text \<open>
  The state of the machine that the allocator reads and writes: physical memory, the
  static registry \<open>pools[0..pool_count)\<close> and the lines written to the console.
\<close>

record machine =
  ram :: memory
  pools :: "ContFramePool list"
  console :: "string list"

datatype error = AssertionFailed

subsection \<open>get\_state and set\_state\<close>

text \<open>
  The C code promotes the byte to \<open>int\<close> for the shifts and the masks and casts the
  result back to \<open>unsigned char\<close>. With a shift of at most 7 the low eight bits of the
  promoted computation are what the same operations give on bytes, so the model works on
  bytes.
\<close>

definition get_state :: "ContFramePool \<Rightarrow> memory \<Rightarrow> ulong \<Rightarrow> FrameState" where
  "get_state p mem frame_no =
     (let rel = frame_no - base_frame_no p;
          bit = push_bit 1 rel;
          byte_idx = drop_bit 3 bit;
          shift = bit AND 7;
          slot = mem (bitmap p + byte_idx);
          two_bits = drop_bit (unat shift) slot AND 3
      in state_of_code two_bits)"

definition set_state :: "ContFramePool \<Rightarrow> memory \<Rightarrow> ulong \<Rightarrow> FrameState \<Rightarrow> memory" where
  "set_state p mem frame_no state =
     (let rel = frame_no - base_frame_no p;
          bit = push_bit 1 rel;
          byte_idx = drop_bit 3 bit;
          shift = bit AND 7;
          mask = push_bit (unat shift) (3 :: uchar);
          val = push_bit (unat shift) (state_code state);
          slot = mem (bitmap p + byte_idx)
      in mem (bitmap p + byte_idx := (slot AND NOT mask) OR val))"

subsection \<open>needed\_info\_frames\<close>

text \<open>
  \<open>FRAME_SIZE\<close> is a constant of the missing header; it is a parameter here. The C
  division is undefined for \<open>FRAME_SIZE = 0\<close>, so the theorems that depend on the
  quotient assume \<open>FRAME_SIZE \<noteq> 0\<close>.
\<close>

definition needed_info_frames :: "ulong \<Rightarrow> ulong \<Rightarrow> ulong" where
  "needed_info_frames FRAME_SIZE n =
     (let bits = push_bit 1 n;
          bytes = drop_bit 3 (bits + 7)
      in (bytes + FRAME_SIZE - 1) div FRAME_SIZE)"

subsection \<open>The loops\<close>

text \<open>
  Every loop counts a word up to a bound, compared with \<open><\<close>: below the bound the
  increment cannot wrap, so the distance to the bound decreases and the loop ends.
\<close>

text \<open>The constructor's loop \<open>for (i = 0; i < info_frames; ++i) set_state(base_frame_no + i, Used)\<close>.\<close>

function ctor_mark :: "ContFramePool \<Rightarrow> ulong \<Rightarrow> ulong \<Rightarrow> memory \<Rightarrow> memory" where
  "ctor_mark p info_frames i mem =
     (if i < info_frames
      then ctor_mark p info_frames (i + 1) (set_state p mem (base_frame_no p + i) Used)
      else mem)"
  by pat_completeness auto
termination
proof (relation "measure (\<lambda>(p, k, i, mem). unat k - unat i)", goal_cases)
  case 1
  show ?case by simp
next
  case (2 p k i mem)
  from 2(1) have "unat k - unat (i + 1) < unat k - unat i"
    by unat_arith
  then show ?case by simp
qed

text \<open>The constructor's loop \<open>for (i = 0; i < bitmap_size; ++i) bitmap[i] = 0\<close>.\<close>

function ctor_zero :: "ContFramePool \<Rightarrow> ulong \<Rightarrow> memory \<Rightarrow> memory" where
  "ctor_zero p i mem =
     (if i < bitmap_size p
      then ctor_zero p (i + 1) (mem (bitmap p + i := 0))
      else mem)"
  by pat_completeness auto
termination
proof (relation "measure (\<lambda>(p, i, mem). unat (bitmap_size p) - unat i)", goal_cases)
  case 1
  show ?case by simp
next
  case (2 p i mem)
  from 2(1) have "unat (bitmap_size p) - unat (i + 1) < unat (bitmap_size p) - unat i"
    by unat_arith
  then show ?case by simp
qed

subsection \<open>The constructor\<close>

text \<open>
  The constructor sizes the map from the count it is given, marks the metadata frames and
  shrinks the range when it hosts the map itself, zeroes the map, and registers the pool.
  The assertion \<open>pool_count < 2\<close> stops the kernel when it fails.
\<close>

definition ContFramePool_init ::
  "ulong \<Rightarrow> ulong \<Rightarrow> ulong \<Rightarrow> ulong \<Rightarrow> memory \<Rightarrow> ContFramePool \<times> memory" where
  "ContFramePool_init FRAME_SIZE base count info mem =
     (let bits = push_bit 1 count;
          size = drop_bit 3 (bits + 7)
      in if info = 0
         then let info_frames = needed_info_frames FRAME_SIZE count;
                  this = \<lparr>base_frame_no = base, n_frames = count, info_frame_no = info,
                          bitmap = base * FRAME_SIZE, bitmap_size = size\<rparr>;
                  mem1 = ctor_mark this info_frames 0 mem;
                  this' = this\<lparr>base_frame_no := base + info_frames,
                               n_frames := count - info_frames\<rparr>
              in (this', ctor_zero this' 0 mem1)
         else let this = \<lparr>base_frame_no = base, n_frames = count, info_frame_no = info,
                          bitmap = info * FRAME_SIZE, bitmap_size = size\<rparr>
              in (this, ctor_zero this 0 mem))"

definition ContFramePool_new ::
  "ulong \<Rightarrow> ulong \<Rightarrow> ulong \<Rightarrow> ulong \<Rightarrow> machine \<Rightarrow> error + (ContFramePool \<times> machine)" where
  "ContFramePool_new FRAME_SIZE base count info m =
     (let (this, mem) = ContFramePool_init FRAME_SIZE base count info (ram m)
      in if length (pools m) < 2
         then Inr (this, \<lparr>ram = mem, pools = pools m @ [this],
                          console = console m @ [''Contiguous Frame Pool initialized'' @ [CHR 0x0A]]\<rparr>)
         else Inl AssertionFailed)"

subsection \<open>get\_frames\<close>

text \<open>The inner loop \<open>for (i = 1; i < n_req; ++i) set_state(start + i, Used)\<close>.\<close>

function get_frames_mark :: "ContFramePool \<Rightarrow> uint \<Rightarrow> ulong \<Rightarrow> uint \<Rightarrow> memory \<Rightarrow> memory" where
  "get_frames_mark p n_req start i mem =
     (if i < n_req
      then get_frames_mark p n_req start (i + 1) (set_state p mem (start + i) Used)
      else mem)"
  by pat_completeness auto
termination
proof (relation "measure (\<lambda>(p, n, s, i, mem). unat n - unat i)", goal_cases)
  case 1
  show ?case by simp
next
  case (2 p n s i mem)
  from 2(1) have "unat n - unat (i + 1) < unat n - unat i"
    by unat_arith
  then show ?case by simp
qed

text \<open>
  The scan \<open>for (f = base_frame_no; f < end; ++f)\<close> with its variables \<open>run\<close> and
  \<open>start\<close>. It returns the value \<open>get_frames\<close> returns and the memory it leaves.
\<close>

function get_frames_scan ::
  "ContFramePool \<Rightarrow> uint \<Rightarrow> ulong \<Rightarrow> ulong \<Rightarrow> ulong \<Rightarrow> ulong \<Rightarrow> memory \<Rightarrow> ulong \<times> memory" where
  "get_frames_scan p n_req end f run start mem =
     (if f < end
      then if get_state p mem f = Free
           then let start' = (if run = 0 then f else start);
                    run' = run + 1
                in if run' = n_req
                   then (start', get_frames_mark p n_req start' 1 (set_state p mem start' HoS))
                   else get_frames_scan p n_req end (f + 1) run' start' mem
           else get_frames_scan p n_req end (f + 1) 0 start mem
      else (0, mem))"
  by pat_completeness auto
termination
proof (relation "measure (\<lambda>(p, n, e, f, r, s, mem). unat e - unat f)", goal_cases)
  case 1
  show ?case by simp
next
  case (2 p n e f r s mem)
  from 2(1) have "unat e - unat (f + 1) < unat e - unat f"
    by unat_arith
  then show ?case by simp
next
  case (3 p n e f r s mem)
  from 3(1) have "unat e - unat (f + 1) < unat e - unat f"
    by unat_arith
  then show ?case by simp
qed

definition get_frames :: "ContFramePool \<Rightarrow> uint \<Rightarrow> memory \<Rightarrow> ulong \<times> memory" where
  "get_frames p n_req mem =
     (if n_req = 0 then (0, mem)
      else get_frames_scan p n_req (base_frame_no p + n_frames p) (base_frame_no p) 0 0 mem)"

subsection \<open>mark\_inaccessible\<close>

function mark_loop :: "ContFramePool \<Rightarrow> ulong \<Rightarrow> ulong \<Rightarrow> memory \<Rightarrow> memory" where
  "mark_loop p end f mem =
     (if f < end then mark_loop p end (f + 1) (set_state p mem f Used) else mem)"
  by pat_completeness auto
termination
proof (relation "measure (\<lambda>(p, e, f, mem). unat e - unat f)", goal_cases)
  case 1
  show ?case by simp
next
  case (2 p e f mem)
  from 2(1) have "unat e - unat (f + 1) < unat e - unat f"
    by unat_arith
  then show ?case by simp
qed

definition mark_inaccessible :: "ContFramePool \<Rightarrow> ulong \<Rightarrow> ulong \<Rightarrow> memory \<Rightarrow> memory" where
  "mark_inaccessible p base count mem = mark_loop p (base + count) base mem"

subsection \<open>release\_frames\<close>

text \<open>The walk \<open>while (f < end && p->get_state(f) == Used)\<close>.\<close>

function release_walk :: "ContFramePool \<Rightarrow> ulong \<Rightarrow> ulong \<Rightarrow> memory \<Rightarrow> memory" where
  "release_walk p end f mem =
     (if f < end \<and> get_state p mem f = Used
      then release_walk p end (f + 1) (set_state p mem f Free)
      else mem)"
  by pat_completeness auto
termination
proof (relation "measure (\<lambda>(p, e, f, mem). unat e - unat f)", goal_cases)
  case 1
  show ?case by simp
next
  case (2 p e f mem)
  from 2(1) have "unat e - unat (f + 1) < unat e - unat f"
    by unat_arith
  then show ?case by simp
qed

text \<open>
  The loop over the registry, from the pool at index \<open>i\<close> on: the first pool whose range
  holds \<open>first\<close> decides the call.
\<close>

fun release_scan :: "ContFramePool list \<Rightarrow> ulong \<Rightarrow> machine \<Rightarrow> machine" where
  "release_scan [] first m =
     m\<lparr>console := console m @ [''Error: Frame does not belong to any pool'' @ [CHR 0x0A]]\<rparr>"
| "release_scan (p # ps) first m =
     (let begin = base_frame_no p;
          end = begin + n_frames p
      in if first \<ge> begin \<and> first < end
         then if get_state p (ram m) first \<noteq> HoS
              then m\<lparr>console := console m @ [''Error: Frame is not Head-of-Sequence'' @ [CHR 0x0A]]\<rparr>
              else m\<lparr>ram := release_walk p end (first + 1) (set_state p (ram m) first Free)\<rparr>
         else release_scan ps first m)"

definition release_frames :: "ulong \<Rightarrow> machine \<Rightarrow> machine" where
  "release_frames first m = release_scan (pools m) first m"

subsection \<open>Vocabulary of the properties\<close>

text \<open>The index of the first of the two bits that the map keeps for a frame.\<close>

definition slot_bit :: "ContFramePool \<Rightarrow> ulong \<Rightarrow> ulong" where
  "slot_bit p f = push_bit 1 (f - base_frame_no p)"

text \<open>The usable range of a pool, with the comparison \<open>release_frames\<close> makes.\<close>

definition in_range :: "ContFramePool \<Rightarrow> ulong \<Rightarrow> bool" where
  "in_range p f \<longleftrightarrow> base_frame_no p \<le> f \<and> f < base_frame_no p + n_frames p"

text \<open>The \<open>k\<close> frames from \<open>s\<close> on all lie in the usable range and are Free.\<close>

definition free_run :: "ContFramePool \<Rightarrow> memory \<Rightarrow> ulong \<Rightarrow> nat \<Rightarrow> bool" where
  "free_run p mem s k \<longleftrightarrow>
     (\<forall>i<k. in_range p (s + of_nat i) \<and> get_state p mem (s + of_nat i) = Free)"

text \<open>
  The bit index \<open>rel << 1\<close> is computed in an \<open>unsigned long\<close>: two frames of a pool
  have different fields in the map as long as the pool has at most \<open>2^31\<close> frames.
\<close>

definition pool_fits :: "ContFramePool \<Rightarrow> bool" where
  "pool_fits p \<longleftrightarrow> unat (n_frames p) \<le> 2 ^ 31"

text \<open>
  The same with frame numbers as natural numbers: frame \<open>k\<close> reads Free, and the \<open>N\<close>
  frames from \<open>a\<close> on all read Free.
\<close>

definition isfree :: "ContFramePool \<Rightarrow> memory \<Rightarrow> nat \<Rightarrow> bool" where
  "isfree p mem k \<longleftrightarrow> get_state p mem (of_nat k) = Free"

definition fits :: "ContFramePool \<Rightarrow> memory \<Rightarrow> nat \<Rightarrow> nat \<Rightarrow> bool" where
  "fits p mem N a \<longleftrightarrow> (\<forall>k. a \<le> k \<and> k < a + N \<longrightarrow> isfree p mem k)"

text \<open>
  The frames \<open>release_frames(h)\<close> is to free: \<open>h\<close> and the unbroken stretch of Used
  frames that follows it.
\<close>

definition released :: "ContFramePool \<Rightarrow> memory \<Rightarrow> ulong \<Rightarrow> ulong \<Rightarrow> bool" where
  "released p mem h g \<longleftrightarrow> h \<le> g \<and> (\<forall>x. h < x \<and> x \<le> g \<longrightarrow> get_state p mem x = Used)"

text \<open>
  Frame \<open>g\<close> belongs to the allocated run headed by \<open>h\<close>: \<open>h\<close> is a HoS frame of the
  usable range, \<open>g\<close> is not below it and every frame after \<open>h\<close> up to \<open>g\<close> is Used.
\<close>

definition in_run :: "ContFramePool \<Rightarrow> memory \<Rightarrow> ulong \<Rightarrow> ulong \<Rightarrow> bool" where
  "in_run p mem h g \<longleftrightarrow> in_range p h \<and> get_state p mem h = HoS \<and> released p mem h g"

text \<open>
  The local form of run integrity: no frame of the usable range holds the unnamed value,
  and a Used frame is never the first of the range and always follows a Used or HoS
  frame.
\<close>

definition well_formed :: "ContFramePool \<Rightarrow> memory \<Rightarrow> bool" where
  "well_formed p mem \<longleftrightarrow>
     (\<forall>g. in_range p g \<longrightarrow>
        get_state p mem g \<noteq> Unnamed \<and>
        (get_state p mem g = Used \<longrightarrow>
           base_frame_no p < g \<and> get_state p mem (g - 1) \<in> {Used, HoS}))"

text \<open>
  A client's calls on a pool: \<open>get_frames\<close> on the pool object, \<open>release_frames\<close>
  through the registry. \<open>run_calls\<close> performs a sequence of them and collects what the
  \<open>get_frames\<close> calls return.
\<close>

datatype call = GetFrames uint | ReleaseFrames ulong

fun perform :: "ContFramePool \<Rightarrow> call \<Rightarrow> machine \<Rightarrow> ulong list \<times> machine" where
  "perform p (GetFrames n) m =
     (let (r, mem) = get_frames p n (ram m) in ([r], m\<lparr>ram := mem\<rparr>))"
| "perform p (ReleaseFrames f) m = ([], release_frames f m)"

fun run_calls :: "ContFramePool \<Rightarrow> call list \<Rightarrow> machine \<Rightarrow> ulong list \<times> machine" where
  "run_calls p [] m = ([], m)"
| "run_calls p (c # cs) m =
     (let (rs, m') = perform p c m;
          (rs', m'') = run_calls p cs m'
      in (rs @ rs', m''))"

text \<open>
  The address of the byte of the map that holds the field of a frame. Two pools are
  apart when no frame of the usable range of one has its field in a byte that holds the
  field of a frame of the usable range of the other.
\<close>

definition map_byte :: "ContFramePool \<Rightarrow> ulong \<Rightarrow> ulong" where
  "map_byte p f = bitmap p + drop_bit 3 (slot_bit p f)"

definition apart :: "ContFramePool \<Rightarrow> ContFramePool \<Rightarrow> bool" where
  "apart p q \<longleftrightarrow> (\<forall>f g. in_range p f \<and> in_range q g \<longrightarrow> map_byte p f \<noteq> map_byte q g)"

text \<open>
  The runs a client holds; the spec calls a run the frames allocated together by one
  \<open>get_frames\<close> call. \<open>get_frames(n)\<close> hands out the run of \<open>n\<close> frames from the
  frame it returns, unless it returns 0, which the client reads as a failure; the client
  gives a run back by passing its first frame to \<open>release_frames\<close>. \<open>live_after\<close>
  takes the result of the call from \<open>get_frames\<close> itself, on the machine the call
  starts from. \<open>live_runs\<close> follows a sequence of calls and keeps the runs handed out
  and not yet given back, each as the pair of its first frame and its length.
\<close>

fun live_after :: "ContFramePool \<Rightarrow> call \<Rightarrow> machine \<Rightarrow> (ulong \<times> uint) list \<Rightarrow> (ulong \<times> uint) list" where
  "live_after p (GetFrames n) m live =
     (let r = fst (get_frames p n (ram m)) in if r \<noteq> 0 then (r, n) # live else live)"
| "live_after p (ReleaseFrames h) m live = filter (\<lambda>(f, n). f \<noteq> h) live"

fun live_runs :: "ContFramePool \<Rightarrow> call list \<Rightarrow> machine \<Rightarrow> (ulong \<times> uint) list \<Rightarrow> (ulong \<times> uint) list" where
  "live_runs p [] m live = live"
| "live_runs p (c # cs) m live = live_runs p cs (snd (perform p c m)) (live_after p c m live)"

text \<open>
  The run of \<open>n\<close> frames from \<open>f\<close> on is intact in the map: its frames lie in the usable
  range, the first reads HoS and every other one reads Used. Frame \<open>g\<close> is covered by
  a list of runs when it is a frame of one of them.
\<close>

definition run_intact :: "ContFramePool \<Rightarrow> memory \<Rightarrow> ulong \<Rightarrow> uint \<Rightarrow> bool" where
  "run_intact p mem f n \<longleftrightarrow>
     n \<noteq> 0 \<and>
     (\<forall>i<unat n. in_range p (f + of_nat i) \<and>
        get_state p mem (f + of_nat i) = (if i = 0 then HoS else Used))"

definition covered :: "(ulong \<times> uint) list \<Rightarrow> ulong \<Rightarrow> bool" where
  "covered live g \<longleftrightarrow> (\<exists>(f, n) \<in> set live. \<exists>i<unat n. g = f + of_nat i)"

text \<open>Two pools whose usable ranges share no frame.\<close>

definition disjoint_ranges :: "ContFramePool \<Rightarrow> ContFramePool \<Rightarrow> bool" where
  "disjoint_ranges p q \<longleftrightarrow> (\<forall>g. in_range p g \<longrightarrow> \<not> in_range q g)"

section \<open>The packed map\<close>

declare ctor_mark.simps [simp del]
declare ctor_zero.simps [simp del]
declare get_frames_mark.simps [simp del]
declare get_frames_scan.simps [simp del]
declare mark_loop.simps [simp del]
declare release_walk.simps [simp del]

lemma three_mask: "(3::uchar) = mask 2"
  by (simp add: mask_eq_exp_minus_1)

lemma field_same2:
  fixes slot c :: uchar
  assumes "c AND mask 2 = c" "sh < 7"
  shows "drop_bit sh ((slot AND NOT (push_bit sh (mask 2))) OR push_bit sh c) AND mask 2 = c"
  apply (rule bit_word_eqI)
  using assms
  apply (auto simp: bit_simps bit_eq_iff)
  done

lemma field_other:
  fixes slot c :: uchar
  assumes "c AND mask 2 = c" "sh + 2 \<le> sh' \<or> sh' + 2 \<le> sh"
  shows "drop_bit sh' ((slot AND NOT (push_bit sh (mask 2))) OR push_bit sh c) AND mask 2 = drop_bit sh' slot AND mask 2"
proof (rule bit_word_eqI)
  fix n assume "n < LENGTH(8)"
  have c: "\<And>k. bit c k \<Longrightarrow> k < 2"
    using assms(1) by (metis bit_and_iff bit_mask_iff)
  have s: "\<And>k. bit slot k \<Longrightarrow> k < 8"
    by (auto dest: bit_imp_le_length)
  show "bit (drop_bit sh' ((slot AND NOT (push_bit sh (mask 2))) OR push_bit sh c) AND mask 2) n
     = bit (drop_bit sh' slot AND mask 2) n"
    using assms(2) by (auto simp: bit_simps dest: c s)
qed

lemma code_mask: "state_code s AND mask 2 = state_code s"
  by (cases s) (simp_all add: state_code_def mask_eq_exp_minus_1)

lemma code_inv: "state_of_code (state_code s) = s"
  by (cases s) (simp_all add: state_code_def state_of_code_def)



lemma and7: "(x::ulong) AND 7 = take_bit 3 x"
  by (simp add: take_bit_eq_mask mask_eq_exp_minus_1)

lemma shift_val: "unat ((push_bit 1 (r::ulong)) AND 7) = (2 * unat r) mod 8"
proof -
  have "unat (push_bit 1 r AND 7) = take_bit 3 (unat (push_bit 1 r))"
    by (simp only: and7 unsigned_take_bit_eq)
  also have "\<dots> = unat (push_bit 1 r) mod 8"
    by (simp add: take_bit_eq_mod)
  also have "unat (push_bit 1 r) = (2 * unat r) mod 2 ^ 32"
    by (simp add: push_bit_eq_mult unat_word_ariths mult.commute)
  finally show ?thesis
    by (simp add: mod_mod_cancel)
qed

lemma shift_even: "unat ((push_bit 1 (r::ulong)) AND 7) \<in> {0, 2, 4, 6}"
  unfolding shift_val by (simp; presburger)

lemma bit_split: "(x::ulong) = push_bit 3 (drop_bit 3 x) OR (x AND 7)"
  unfolding and7 by (rule bit_word_eqI) (auto simp: bit_simps)

lemma slot_eq:
  "drop_bit 3 (x::ulong) = drop_bit 3 y \<Longrightarrow> x AND 7 = y AND 7 \<Longrightarrow> x = y"
  by (metis bit_split)

lemma get_state_alt:
  "get_state p mem f =
     state_of_code (drop_bit (unat (slot_bit p f AND 7)) (mem (bitmap p + drop_bit 3 (slot_bit p f))) AND mask 2)"
  by (simp only: get_state_def Let_def slot_bit_def three_mask)

lemma set_state_alt:
  "set_state p mem f s =
     mem (bitmap p + drop_bit 3 (slot_bit p f) :=
        (mem (bitmap p + drop_bit 3 (slot_bit p f)) AND NOT (push_bit (unat (slot_bit p f AND 7)) (mask 2)))
          OR push_bit (unat (slot_bit p f AND 7)) (state_code s))"
  by (simp only: set_state_def Let_def slot_bit_def three_mask)

lemma get_set_same: "get_state p (set_state p mem f s) f = s"
proof -
  define sh where "sh = unat (slot_bit p f AND 7)"
  have "sh \<in> {0, 2, 4, 6}" unfolding sh_def slot_bit_def by (rule shift_even)
  then have "sh < 7" by auto
  then show ?thesis
    unfolding get_state_alt set_state_alt sh_def[symmetric]
    by (simp only: fun_upd_same field_same2[OF code_mask] code_inv)
qed

lemma get_set_other:
  assumes "slot_bit p f \<noteq> slot_bit p g"
  shows "get_state p (set_state p mem f s) g = get_state p mem g"
proof (cases "drop_bit 3 (slot_bit p f) = drop_bit 3 (slot_bit p g)")
  case False
  then show ?thesis
    unfolding get_state_alt set_state_alt by simp
next
  case True
  define sh where "sh = unat (slot_bit p f AND 7)"
  define sh' where "sh' = unat (slot_bit p g AND 7)"
  have e: "sh \<in> {0, 2, 4, 6}" "sh' \<in> {0, 2, 4, 6}"
    unfolding sh_def sh'_def slot_bit_def by (rule shift_even)+
  have "slot_bit p f AND 7 \<noteq> slot_bit p g AND 7"
    using assms True slot_eq by blast
  then have "sh \<noteq> sh'"
    unfolding sh_def sh'_def by (simp add: word_unat_eq_iff)
  with e have far: "sh + 2 \<le> sh' \<or> sh' + 2 \<le> sh"
    by auto
  show ?thesis
    unfolding get_state_alt set_state_alt sh_def[symmetric] sh'_def[symmetric] True
    by (simp only: fun_upd_same field_other[OF code_mask far])
qed

lemma slot_bit_inj:
  assumes "unat (f - base_frame_no p) < 2 ^ 31" "unat (g - base_frame_no p) < 2 ^ 31"
    and "slot_bit p f = slot_bit p g"
  shows "f = g"
proof -
  have u: "\<And>r::ulong. unat r < 2 ^ 31 \<Longrightarrow> unat (push_bit 1 r) = 2 * unat r"
    by (simp add: push_bit_eq_mult unat_word_ariths)
  from assms have "2 * unat (f - base_frame_no p) = 2 * unat (g - base_frame_no p)"
    by (metis u slot_bit_def)
  then have "f - base_frame_no p = g - base_frame_no p"
    by (simp add: word_unat_eq_iff)
  then show ?thesis by simp
qed

section \<open>The constructor\<close>

lemma ctor_zero_spec:
  "ctor_zero p i mem a =
     (if i \<le> a - bitmap p \<and> a - bitmap p < bitmap_size p then 0 else mem a)"
proof (induction p i mem rule: ctor_zero.induct)
  case (1 p i mem)
  show ?case
  proof (cases "i < bitmap_size p")
    case True
    note IH = 1 [OF True]
    have eq: "a = bitmap p + i \<longleftrightarrow> a - bitmap p = i"
      by auto
    have step: "i + 1 \<le> a - bitmap p \<longleftrightarrow> i \<le> a - bitmap p \<and> a - bitmap p \<noteq> i"
      using True by unat_arith
    have "ctor_zero p i mem a = ctor_zero p (i + 1) (mem (bitmap p + i := 0)) a"
      using True by (subst ctor_zero.simps) simp
    also have "\<dots> = (if i + 1 \<le> a - bitmap p \<and> a - bitmap p < bitmap_size p then 0
                      else (mem (bitmap p + i := 0)) a)"
      by (rule IH)
    also have "\<dots> = (if i \<le> a - bitmap p \<and> a - bitmap p < bitmap_size p then 0 else mem a)"
      using True by (simp add: step eq)
    finally show ?thesis .
  next
    case False
    then show ?thesis
      by (subst ctor_zero.simps) auto
  qed
qed

lemma get_state_zero_byte:
  "mem (bitmap p + drop_bit 3 (slot_bit p f)) = 0 \<Longrightarrow> get_state p mem f = Free"
  unfolding get_state_alt by (simp add: state_of_code_def)

lemma in_range_rel: "in_range p f \<Longrightarrow> unat (f - base_frame_no p) < unat (n_frames p)"
  unfolding in_range_def by unat_arith

lemma slot_bit_unat:
  assumes "unat (f - base_frame_no p) < 2 ^ 31"
  shows "unat (slot_bit p f) = 2 * unat (f - base_frame_no p)"
proof -
  have "unat (push_bit 1 r) = 2 * unat r" if "unat r < 2 ^ 31" for r :: ulong
    using that by (simp add: push_bit_eq_mult unat_word_ariths)
  with assms show ?thesis
    unfolding slot_bit_def by blast
qed

lemma ceil_div_le:
  fixes b F M :: nat
  assumes "0 < F"
  shows "((b + (F - 1)) mod M) div F \<le> b"
proof -
  have "(b + (F - 1)) mod M \<le> b + (F - 1)" by simp
  then have "((b + (F - 1)) mod M) div F \<le> (b + (F - 1)) div F"
    by (rule div_le_mono)
  also have "\<dots> \<le> b"
  proof (cases "b = 0")
    case True
    with assms show ?thesis by simp
  next
    case False
    then have "b + (F - 1) \<le> b * F"
      using assms by (cases F; cases b) auto
    then have "(b + (F - 1)) div F \<le> (b * F) div F"
      by (rule div_le_mono)
    with assms show ?thesis by simp
  qed
  finally show ?thesis .
qed

lemma unat_drop3: "unat (drop_bit 3 (x::ulong)) = unat x div 8"
  by (simp only: unat_drop_bit_eq) (simp add: drop_bit_eq_div)

lemma needed_info_frames_le:
  assumes "FRAME_SIZE \<noteq> 0" "2 * unat count + 7 < 2 ^ 32"
  shows "unat (needed_info_frames FRAME_SIZE count) \<le> unat count"
proof -
  define bytes :: ulong where "bytes = drop_bit 3 (push_bit 1 count + 7)"
  have pb: "unat (push_bit 1 count + 7 :: ulong) = 2 * unat count + 7"
    using assms(2) by (simp add: push_bit_eq_mult unat_word_ariths)
  have "unat bytes = (2 * unat count + 7) div 8"
    unfolding bytes_def by (simp only: unat_drop3 pb)
  then have b: "unat bytes \<le> unat count"
    by simp
  have F: "0 < unat FRAME_SIZE"
    using assms(1) by (simp add: unat_gt_0)
  then have "unat (FRAME_SIZE - 1) = unat FRAME_SIZE - 1"
    by (simp add: unat_minus_one assms(1))
  then have "unat (bytes + FRAME_SIZE - 1) = (unat bytes + (unat FRAME_SIZE - 1)) mod 2 ^ 32"
    by (simp add: unat_word_ariths add_diff_eq[symmetric])
  then have "unat ((bytes + FRAME_SIZE - 1) div FRAME_SIZE)
      = ((unat bytes + (unat FRAME_SIZE - 1)) mod 2 ^ 32) div unat FRAME_SIZE"
    by (simp add: unat_div)
  also have "\<dots> \<le> unat bytes"
    using F by (rule ceil_div_le)
  finally show ?thesis
    using b by (simp add: needed_info_frames_def Let_def bytes_def)
qed

lemma byte_in_map:
  assumes "unat (f - base_frame_no p) < unat count" "2 * unat count + 7 < 2 ^ 32"
  shows "drop_bit 3 (slot_bit p f) < drop_bit 3 (push_bit 1 count + 7)"
proof -
  have pb: "unat (push_bit 1 count + 7 :: ulong) = 2 * unat count + 7"
    using assms(2) by (simp add: push_bit_eq_mult unat_word_ariths)
  have "unat (f - base_frame_no p) < 2 ^ 31"
    using assms by simp
  then have sb: "unat (slot_bit p f) = 2 * unat (f - base_frame_no p)"
    by (rule slot_bit_unat)
  have "unat (drop_bit 3 (slot_bit p f)) = (2 * unat (f - base_frame_no p)) div 8"
    by (simp only: unat_drop3 sb)
  moreover have "unat (drop_bit 3 (push_bit 1 count + 7 :: ulong)) = (2 * unat count + 7) div 8"
    by (simp only: unat_drop3 pb)
  ultimately show ?thesis
    using assms(1) by (simp add: word_less_nat_alt)
qed

subsection \<open>What the constructor leaves\<close>

lemma init_fields:
  assumes "ContFramePool_init FRAME_SIZE base count info mem = (p, mem')"
  shows "bitmap_size p = drop_bit 3 (push_bit 1 count + 7)"
    and "info_frame_no p = info"
    and "info = 0 \<Longrightarrow> base_frame_no p = base + needed_info_frames FRAME_SIZE count"
    and "info = 0 \<Longrightarrow> n_frames p = count - needed_info_frames FRAME_SIZE count"
    and "info = 0 \<Longrightarrow> bitmap p = base * FRAME_SIZE"
    and "info \<noteq> 0 \<Longrightarrow> base_frame_no p = base"
    and "info \<noteq> 0 \<Longrightarrow> n_frames p = count"
    and "info \<noteq> 0 \<Longrightarrow> bitmap p = info * FRAME_SIZE"
  using assms by (auto simp: ContFramePool_init_def Let_def split: if_splits)

lemma init_zeroed:
  assumes "ContFramePool_init FRAME_SIZE base count info mem = (p, mem')"
    and "i < bitmap_size p"
  shows "mem' (bitmap p + i) = 0"
proof -
  from assms(1) obtain mem1 where "mem' = ctor_zero p 0 mem1"
    by (auto simp: ContFramePool_init_def Let_def split: if_splits)
  with assms(2) show ?thesis
    by (simp add: ctor_zero_spec)
qed

lemma init_count:
  assumes "ContFramePool_init FRAME_SIZE base count info mem = (p, mem')"
    and "FRAME_SIZE \<noteq> 0" "2 * unat count + 7 < 2 ^ 32"
  shows "unat (n_frames p) \<le> unat count"
proof (cases "info = 0")
  case True
  have "unat (needed_info_frames FRAME_SIZE count) \<le> unat count"
    using assms(2,3) by (rule needed_info_frames_le)
  then have "unat (count - needed_info_frames FRAME_SIZE count) \<le> unat count"
    by unat_arith
  with True init_fields(4)[OF assms(1)] show ?thesis by simp
next
  case False
  with init_fields(7)[OF assms(1)] show ?thesis by simp
qed

lemma init_usable_free:
  assumes init: "ContFramePool_init FRAME_SIZE base count info mem = (p, mem')"
    and fs: "FRAME_SIZE \<noteq> 0" and sz: "2 * unat count + 7 < 2 ^ 32"
    and r: "in_range p f"
  shows "get_state p mem' f = Free"
proof -
  have "unat (f - base_frame_no p) < unat (n_frames p)"
    using r by (rule in_range_rel)
  also have "\<dots> \<le> unat count"
    using init fs sz by (rule init_count)
  finally have "drop_bit 3 (slot_bit p f) < drop_bit 3 (push_bit 1 count + 7)"
    using sz by (rule byte_in_map)
  then have "drop_bit 3 (slot_bit p f) < bitmap_size p"
    by (simp only: init_fields(1)[OF init])
  with init have "mem' (bitmap p + drop_bit 3 (slot_bit p f)) = 0"
    by (rule init_zeroed)
  then show ?thesis
    by (rule get_state_zero_byte)
qed

text \<open>
  Claim C10. When the constructor returns, on the self-hosted path (\<open>info = 0\<close>) and on
  the external one alike, every frame of the usable range of the new pool reads Free:
  every byte of the map is zero, so the marks written for the metadata frames are gone,
  and on the self-hosted path the range starts after the metadata frames, which is all
  that keeps them from being allocated. The size of the map must be computable without
  overflow (\<open>2 * count + 7 < 2^32\<close>) and \<open>FRAME_SIZE\<close> must not be zero.
\<close>

theorem constructor_usable_range_free:
  assumes "FRAME_SIZE \<noteq> 0" and "2 * unat count + 7 < 2 ^ 32"
    and "ContFramePool_new FRAME_SIZE base count info m = Inr (p, m')"
  shows "(\<forall>f. in_range p f \<longrightarrow> get_state p (ram m') f = Free)
       \<and> (\<forall>i. i < bitmap_size p \<longrightarrow> ram m' (bitmap p + i) = 0)
       \<and> (if info = 0
          then base_frame_no p = base + needed_info_frames FRAME_SIZE count
             \<and> n_frames p = count - needed_info_frames FRAME_SIZE count
          else base_frame_no p = base \<and> n_frames p = count)"
proof -
  from assms(3) have init: "ContFramePool_init FRAME_SIZE base count info (ram m) = (p, ram m')"
    by (auto simp: ContFramePool_new_def Let_def split: prod.splits if_splits)
  have "\<forall>f. in_range p f \<longrightarrow> get_state p (ram m') f = Free"
    using init_usable_free[OF init assms(1,2)] by blast
  moreover have "\<forall>i. i < bitmap_size p \<longrightarrow> ram m' (bitmap p + i) = 0"
    using init_zeroed[OF init] by blast
  moreover have "if info = 0
          then base_frame_no p = base + needed_info_frames FRAME_SIZE count
             \<and> n_frames p = count - needed_info_frames FRAME_SIZE count
          else base_frame_no p = base \<and> n_frames p = count"
    using init_fields[OF init] by simp
  ultimately show ?thesis by blast
qed

theorem constructor_usable_range_free_witness:
  "(4096 :: ulong) \<noteq> 0 \<and> 2 * unat (8 :: ulong) + 7 < 2 ^ 32 \<and>
   (case ContFramePool_new 4096 8 8 0 \<lparr>ram = (\<lambda>_. 255), pools = [], console = []\<rparr> of
      Inl e \<Rightarrow> False
    | Inr (p, m') \<Rightarrow>
        in_range p 9 \<and> get_state p (ram m') 9 = Free \<and>
        1 < bitmap_size p \<and> ram m' (bitmap p + 1) = 0 \<and>
        base_frame_no p = 9 \<and> n_frames p = 7)"
proof -
  obtain p m' where
    new: "ContFramePool_new 4096 8 8 0 \<lparr>ram = (\<lambda>_. 255), pools = [], console = []\<rparr> = Inr (p, m')"
    by (cases "ContFramePool_init 4096 8 8 0 (\<lambda>_. 255)") (simp add: ContFramePool_new_def)
  then have p: "p = \<lparr>base_frame_no = 9, n_frames = 7, info_frame_no = 0, bitmap = 32768,
      bitmap_size = 2\<rparr>"
    by (auto simp: ContFramePool_new_def ContFramePool_init_def needed_info_frames_def Let_def)
  have fs: "(4096 :: ulong) \<noteq> 0" by simp
  have sz: "2 * unat (8 :: ulong) + 7 < 2 ^ 32" by simp
  note concl = constructor_usable_range_free [OF fs sz new]
  have r: "in_range p 9" and b: "1 < bitmap_size p"
    by (simp_all add: p in_range_def)
  from concl r have "get_state p (ram m') 9 = Free" by blast
  moreover from concl b have "ram m' (bitmap p + 1) = 0" by blast
  ultimately show ?thesis
    using r b by (simp add: new p)
qed

section \<open>The error paths of release\_frames\<close>

lemma release_scan_Cons:
  "release_scan (p # ps) f m =
     (if in_range p f
      then if get_state p (ram m) f \<noteq> HoS
           then m\<lparr>console := console m @ [''Error: Frame is not Head-of-Sequence'' @ [CHR 0x0A]]\<rparr>
           else m\<lparr>ram := release_walk p (base_frame_no p + n_frames p) (f + 1)
                             (set_state p (ram m) f Free)\<rparr>
      else release_scan ps f m)"
  by (simp only: release_scan.simps Let_def in_range_def)

lemma release_scan_unknown:
  assumes "\<forall>p \<in> set ps. \<not> in_range p f"
  shows "release_scan ps f m =
     m\<lparr>console := console m @ [''Error: Frame does not belong to any pool'' @ [CHR 0x0A]]\<rparr>"
  using assms
proof (induction ps)
  case Nil
  show ?case by (simp only: release_scan.simps(1))
next
  case (Cons q ps)
  then have "\<not> in_range q f" "\<forall>p \<in> set ps. \<not> in_range p f"
    by simp_all
  with Cons.IH show ?case
    by (simp only: release_scan_Cons if_False)
qed

lemma release_scan_not_head:
  assumes "p \<in> set ps" "in_range p f" "get_state p (ram m) f \<noteq> HoS"
    and "\<forall>q \<in> set ps. in_range q f \<longrightarrow> q = p"
  shows "release_scan ps f m =
     m\<lparr>console := console m @ [''Error: Frame is not Head-of-Sequence'' @ [CHR 0x0A]]\<rparr>"
  using assms
proof (induction ps)
  case Nil
  from Nil.prems(1) show ?case by simp
next
  case (Cons q ps)
  show ?case
  proof (cases "in_range q f")
    case True
    with Cons.prems(4) have "q = p" by simp
    with Cons.prems(2,3) show ?thesis
      by (simp only: release_scan_Cons if_True simp_thms)
  next
    case False
    with Cons.prems(1,2) have a: "p \<in> set ps" by auto
    from Cons.prems(4) have b: "\<forall>q \<in> set ps. in_range q f \<longrightarrow> q = p"
      by simp
    have "release_scan ps f m =
       m\<lparr>console := console m @ [''Error: Frame is not Head-of-Sequence'' @ [CHR 0x0A]]\<rparr>"
      by (rule Cons.IH [OF a Cons.prems(2,3) b])
    with False show ?thesis
      by (simp only: release_scan_Cons if_False)
  qed
qed

text \<open>
  Claim C4. When no registered pool holds the frame, or the one registered pool that
  holds it does not record it as HoS, \<open>release_frames\<close> writes one error line to the
  console and changes nothing else: memory, and so every frame state of every pool, and
  the registry stay as they were. The ranges of the registered pools do not overlap at
  the frame, as the data model requires.
\<close>

theorem release_frames_error_no_effect:
  "((\<forall>p \<in> set (pools m). \<not> in_range p f) \<longrightarrow>
      release_frames f m =
        m\<lparr>console := console m @ [''Error: Frame does not belong to any pool'' @ [CHR 0x0A]]\<rparr>)
   \<and> ((\<exists>p \<in> set (pools m). in_range p f \<and> get_state p (ram m) f \<noteq> HoS
            \<and> (\<forall>q \<in> set (pools m). in_range q f \<longrightarrow> q = p)) \<longrightarrow>
      release_frames f m =
        m\<lparr>console := console m @ [''Error: Frame is not Head-of-Sequence'' @ [CHR 0x0A]]\<rparr>)"
proof (intro conjI impI)
  assume "\<forall>p \<in> set (pools m). \<not> in_range p f"
  then show "release_frames f m =
     m\<lparr>console := console m @ [''Error: Frame does not belong to any pool'' @ [CHR 0x0A]]\<rparr>"
    unfolding release_frames_def by (rule release_scan_unknown)
next
  assume "\<exists>p \<in> set (pools m). in_range p f \<and> get_state p (ram m) f \<noteq> HoS
            \<and> (\<forall>q \<in> set (pools m). in_range q f \<longrightarrow> q = p)"
  then obtain p where "p \<in> set (pools m)" "in_range p f" "get_state p (ram m) f \<noteq> HoS"
    "\<forall>q \<in> set (pools m). in_range q f \<longrightarrow> q = p"
    by blast
  then show "release_frames f m =
     m\<lparr>console := console m @ [''Error: Frame is not Head-of-Sequence'' @ [CHR 0x0A]]\<rparr>"
    unfolding release_frames_def by (rule release_scan_not_head)
qed

theorem release_frames_error_no_effect_witness:
  "release_frames 9
     \<lparr>ram = (\<lambda>_. 0),
      pools = [\<lparr>base_frame_no = 8, n_frames = 8, info_frame_no = 1, bitmap = 4096, bitmap_size = 2\<rparr>],
      console = []\<rparr>
   = \<lparr>ram = (\<lambda>_. 0),
      pools = [\<lparr>base_frame_no = 8, n_frames = 8, info_frame_no = 1, bitmap = 4096, bitmap_size = 2\<rparr>],
      console = [''Error: Frame is not Head-of-Sequence'' @ [CHR 0x0A]]\<rparr>
   \<and> release_frames 3
     \<lparr>ram = (\<lambda>_. 0),
      pools = [\<lparr>base_frame_no = 8, n_frames = 8, info_frame_no = 1, bitmap = 4096, bitmap_size = 2\<rparr>],
      console = []\<rparr>
   = \<lparr>ram = (\<lambda>_. 0),
      pools = [\<lparr>base_frame_no = 8, n_frames = 8, info_frame_no = 1, bitmap = 4096, bitmap_size = 2\<rparr>],
      console = [''Error: Frame does not belong to any pool'' @ [CHR 0x0A]]\<rparr>"
proof -
  let ?P = "\<lparr>base_frame_no = 8, n_frames = 8, info_frame_no = 1, bitmap = 4096,
      bitmap_size = 2\<rparr> :: ContFramePool"
  let ?M = "\<lparr>ram = (\<lambda>_. 0), pools = [?P], console = []\<rparr> :: machine"
  have "in_range ?P 9" and "get_state ?P (ram ?M) 9 \<noteq> HoS"
    by (simp_all add: in_range_def get_state_def Let_def state_of_code_def)
  then have h1: "\<exists>p \<in> set (pools ?M). in_range p 9 \<and> get_state p (ram ?M) 9 \<noteq> HoS
            \<and> (\<forall>q \<in> set (pools ?M). in_range q 9 \<longrightarrow> q = p)"
    by simp
  have "\<not> in_range ?P 3"
    by (simp add: in_range_def)
  then have h2: "\<forall>p \<in> set (pools ?M). \<not> in_range p 3"
    by simp
  from release_frames_error_no_effect [of ?M 9] h1
  have r1: "release_frames 9 ?M =
      ?M\<lparr>console := console ?M @ [''Error: Frame is not Head-of-Sequence'' @ [CHR 0x0A]]\<rparr>"
    by blast
  from release_frames_error_no_effect [of ?M 3] h2
  have r2: "release_frames 3 ?M =
      ?M\<lparr>console := console ?M @ [''Error: Frame does not belong to any pool'' @ [CHR 0x0A]]\<rparr>"
    by blast
  show ?thesis
    unfolding r1 r2 by simp
qed

section \<open>The scan of get\_frames\<close>

subsection \<open>Frames as numbers\<close>

lemma in_range_nat:
  "in_range p g \<longleftrightarrow>
     unat (base_frame_no p) \<le> unat g \<and> unat g < unat (base_frame_no p + n_frames p)"
  by (simp add: in_range_def word_le_nat_alt word_less_nat_alt)

lemma unat_succ_less: "(g :: ulong) < e \<Longrightarrow> unat (g + 1) = Suc (unat g)"
  by unat_arith

lemma of_nat_unat_add: "(of_nat (unat (s :: ulong) + i) :: ulong) = s + of_nat i"
  by simp

lemma free_run_offsets:
  assumes "free_run p mem s N" "i < N"
  shows "unat (s + of_nat i) = unat s + i"
  using assms(2)
proof (induction i)
  case 0
  show ?case by simp
next
  case (Suc i)
  then have IH: "unat (s + of_nat i) = unat s + i"
    by simp
  from Suc.prems assms(1) have "in_range p (s + of_nat i)"
    by (simp add: free_run_def)
  then have "s + of_nat i < base_frame_no p + n_frames p"
    by (simp add: in_range_def)
  then have "unat (s + of_nat i + 1) = Suc (unat (s + of_nat i))"
    by (rule unat_succ_less)
  moreover have "s + of_nat (Suc i) = s + of_nat i + 1"
    by simp
  ultimately have "unat (s + of_nat (Suc i)) = Suc (unat (s + of_nat i))"
    by (simp only:)
  with IH show ?case
    by (simp only: add_Suc_right)
qed

lemma free_run_nat:
  "free_run p mem s N \<longleftrightarrow>
     N = 0 \<or> (unat (base_frame_no p) \<le> unat s \<and> unat s + N \<le> unat (base_frame_no p + n_frames p)
              \<and> (\<forall>k. unat s \<le> k \<and> k < unat s + N \<longrightarrow> get_state p mem (of_nat k) = Free))"
  (is "?L \<longleftrightarrow> N = 0 \<or> ?R")
proof (cases "N = 0")
  case True
  then show ?thesis by (simp add: free_run_def)
next
  case False
  have "?L \<longleftrightarrow> ?R"
  proof
    assume L: ?L
    note Li = L [unfolded free_run_def, rule_format]
    from False have "in_range p (s + of_nat 0)"
      by (intro Li [THEN conjunct1]) simp
    then have r0: "in_range p s"
      by simp
    from False have "in_range p (s + of_nat (N - 1))"
      by (intro Li [THEN conjunct1]) simp
    then have "unat (s + of_nat (N - 1)) < unat (base_frame_no p + n_frames p)"
      unfolding in_range_nat by (rule conjunct2)
    moreover from False have "unat (s + of_nat (N - 1)) = unat s + (N - 1)"
      by (intro free_run_offsets[OF L]) simp
    ultimately have hi: "unat s + N \<le> unat (base_frame_no p + n_frames p)"
      using False by linarith
    have "get_state p mem (of_nat k) = Free" if "unat s \<le> k" "k < unat s + N" for k
    proof -
      from that have "k - unat s < N" by simp
      then have "get_state p mem (s + of_nat (k - unat s)) = Free"
        by (rule Li [THEN conjunct2])
      moreover have "s + of_nat (k - unat s) = (of_nat k :: ulong)"
        using that(1) of_nat_unat_add[of s "k - unat s"] by simp
      ultimately show ?thesis by simp
    qed
    with r0 hi show ?R
      by (simp add: in_range_nat)
  next
    assume R: ?R
    show ?L
      unfolding free_run_def
    proof (intro allI impI)
      fix i assume i: "i < N"
      from R have hi: "unat s + N \<le> unat (base_frame_no p + n_frames p)"
        and lo: "unat (base_frame_no p) \<le> unat s"
        and fr: "\<And>k. unat s \<le> k \<Longrightarrow> k < unat s + N \<Longrightarrow> get_state p mem (of_nat k) = Free"
        by blast+
      have "unat (base_frame_no p + n_frames p) < 2 ^ 32"
        using unsigned_less[of "base_frame_no p + n_frames p"] by simp
      with hi i have lt: "unat s + i < 2 ^ 32"
        by linarith
      have eq: "s + of_nat i = (of_nat (unat s + i) :: ulong)"
        by simp
      have "unat (of_nat (unat s + i) :: ulong) = unat s + i"
        using lt by (subst unat_of_nat) simp
      then have u: "unat (s + of_nat i) = unat s + i"
        by (simp only: eq)
      from i have "get_state p mem (of_nat (unat s + i)) = Free"
        by (intro fr) simp_all
      then have "get_state p mem (s + of_nat i) = Free"
        by (simp only: eq)
      moreover from hi lo i u have "in_range p (s + of_nat i)"
        by (simp add: in_range_nat)
      ultimately show "in_range p (s + of_nat i) \<and> get_state p mem (s + of_nat i) = Free"
        by simp
    qed
  qed
  with False show ?thesis by simp
qed

subsection \<open>The invariant of the scan\<close>

lemma isfree_unat: "isfree p mem (unat f) \<longleftrightarrow> get_state p mem f = Free"
  by (simp add: isfree_def)

lemma of_nat_unat_diff:
  "unat (r :: ulong) \<le> unat (f :: ulong) \<Longrightarrow> of_nat (unat f - unat r) = f - r"
  by (simp add: of_nat_diff)

lemma get_frames_scan_inv:
  assumes "unat (base_frame_no p) \<le> unat f" "unat f \<le> unat e"
    and "unat run < unat n_req"
    and "unat run \<le> unat f - unat (base_frame_no p)"
    and "\<forall>k. unat f - unat run \<le> k \<and> k < unat f \<longrightarrow> isfree p mem k"
    and "run \<noteq> 0 \<longrightarrow> start = f - run"
    and "unat run < unat f - unat (base_frame_no p) \<longrightarrow> \<not> isfree p mem (unat f - unat run - 1)"
    and "\<forall>a. unat (base_frame_no p) \<le> a \<and> a + unat n_req \<le> unat f \<longrightarrow> \<not> fits p mem (unat n_req) a"
  shows "(\<exists>a. unat (base_frame_no p) \<le> a \<and> a + unat n_req \<le> unat e \<and> fits p mem (unat n_req) a
            \<and> (\<forall>a'. unat (base_frame_no p) \<le> a' \<and> a' < a \<longrightarrow> \<not> fits p mem (unat n_req) a')
            \<and> get_frames_scan p n_req e f run start mem =
                (of_nat a, get_frames_mark p n_req (of_nat a) 1 (set_state p mem (of_nat a) HoS)))
       \<or> ((\<forall>a. unat (base_frame_no p) \<le> a \<and> a + unat n_req \<le> unat e \<longrightarrow> \<not> fits p mem (unat n_req) a)
            \<and> get_frames_scan p n_req e f run start mem = (0, mem))"
  using assms
proof (induction p n_req e f run start mem rule: get_frames_scan.induct)
  case (1 p n_req e f run start mem)
  let ?b = "unat (base_frame_no p)"
  let ?N = "unat n_req"
  note prems = "1.prems"
  show ?case
  proof (cases "f < e")
    case False
    with prems(2) have "unat f = unat e"
      by (simp add: word_less_nat_alt)
    with prems(8) have "\<forall>a. ?b \<le> a \<and> a + ?N \<le> unat e \<longrightarrow> \<not> fits p mem ?N a"
      by simp
    moreover have "get_frames_scan p n_req e f run start mem = (0, mem)"
      using False by (subst get_frames_scan.simps) simp
    ultimately show ?thesis by blast
  next
    case lt: True
    then have uf1: "unat (f + 1) = Suc (unat f)"
      by (rule unat_succ_less)
    from lt have ufe: "unat f < unat e"
      by (simp add: word_less_nat_alt)
    from prems(3) have Npos: "0 < ?N"
      by simp
    show ?thesis
    proof (cases "get_state p mem f = Free")
      case nf: False
      then have nfree: "\<not> isfree p mem (unat f)"
        by (simp add: isfree_unat)
      have step: "get_frames_scan p n_req e f run start mem =
          get_frames_scan p n_req e (f + 1) 0 start mem"
        using lt nf by (subst get_frames_scan.simps) simp
      have w: "\<forall>a. ?b \<le> a \<and> a + ?N \<le> unat (f + 1) \<longrightarrow> \<not> fits p mem ?N a"
      proof (intro allI impI)
        fix a assume a: "?b \<le> a \<and> a + ?N \<le> unat (f + 1)"
        show "\<not> fits p mem ?N a"
        proof (cases "a + ?N \<le> unat f")
          case True
          with prems(8) a show ?thesis by blast
        next
          case False
          with a uf1 Npos have "a \<le> unat f \<and> unat f < a + ?N"
            by linarith
          with nfree show ?thesis
            unfolding fits_def by blast
        qed
      qed
      have "(\<exists>a. ?b \<le> a \<and> a + ?N \<le> unat e \<and> fits p mem ?N a
            \<and> (\<forall>a'. ?b \<le> a' \<and> a' < a \<longrightarrow> \<not> fits p mem ?N a')
            \<and> get_frames_scan p n_req e (f + 1) 0 start mem =
                (of_nat a, get_frames_mark p n_req (of_nat a) 1 (set_state p mem (of_nat a) HoS)))
       \<or> ((\<forall>a. ?b \<le> a \<and> a + ?N \<le> unat e \<longrightarrow> \<not> fits p mem ?N a)
            \<and> get_frames_scan p n_req e (f + 1) 0 start mem = (0, mem))"
      proof (rule "1.IH"(2) [OF lt nf])
        show "?b \<le> unat (f + 1)" using prems(1) uf1 by simp
        show "unat (f + 1) \<le> unat e" using ufe uf1 by simp
        show "unat (0 :: ulong) < ?N" using Npos by simp
        show "unat (0 :: ulong) \<le> unat (f + 1) - ?b" by simp
        show "\<forall>k. unat (f + 1) - unat (0 :: ulong) \<le> k \<and> k < unat (f + 1) \<longrightarrow> isfree p mem k"
          by auto
        show "(0 :: ulong) \<noteq> 0 \<longrightarrow> start = f + 1 - 0" by simp
        show "unat (0 :: ulong) < unat (f + 1) - ?b \<longrightarrow>
            \<not> isfree p mem (unat (f + 1) - unat (0 :: ulong) - 1)"
          using nfree uf1 by simp
        show "\<forall>a. ?b \<le> a \<and> a + ?N \<le> unat (f + 1) \<longrightarrow> \<not> fits p mem ?N a"
          by (rule w)
      qed
      then show ?thesis
        by (simp only: step)
    next
      case fr: True
      then have free: "isfree p mem (unat f)"
        by (simp add: isfree_unat)
      define start' where "start' = (if run = 0 then f else start)"
      have s': "start' = f - run"
        using prems(6) by (auto simp: start'_def)
      from prems(3) have "run < n_req"
        by (simp add: word_less_nat_alt)
      then have ur1: "unat (run + 1) = Suc (unat run)"
        by (rule unat_succ_less)
      from prems(1,4) have rf: "unat run \<le> unat f"
        by linarith
      show ?thesis
      proof (cases "run + 1 = n_req")
        case eq: True
        have step: "get_frames_scan p n_req e f run start mem =
            (start', get_frames_mark p n_req start' 1 (set_state p mem start' HoS))"
          using lt fr eq by (subst get_frames_scan.simps) (simp add: start'_def Let_def)
        from eq ur1 have N: "?N = Suc (unat run)"
          by simp
        define a where "a = unat f - unat run"
        have sa: "of_nat a = start'"
          unfolding a_def s' using rf by (rule of_nat_unat_diff)
        have "?b \<le> a"
          using prems(1,4) by (simp add: a_def)
        moreover have "a + ?N \<le> unat e"
          using rf ufe by (simp add: a_def N)
        moreover have "fits p mem ?N a"
          unfolding fits_def
        proof (intro allI impI)
          fix k assume k: "a \<le> k \<and> k < a + ?N"
          show "isfree p mem k"
          proof (cases "k < unat f")
            case True
            with k prems(5) show ?thesis by (simp add: a_def)
          next
            case False
            with k rf have "k = unat f" by (simp add: a_def N)
            with free show ?thesis by simp
          qed
        qed
        moreover have "\<forall>a'. ?b \<le> a' \<and> a' < a \<longrightarrow> \<not> fits p mem ?N a'"
        proof (intro allI impI)
          fix a' assume a': "?b \<le> a' \<and> a' < a"
          then have "a' + ?N \<le> unat f"
            using rf unfolding a_def N by linarith
          with a' prems(8) show "\<not> fits p mem ?N a'" by blast
        qed
        moreover have "get_frames_scan p n_req e f run start mem =
            (of_nat a, get_frames_mark p n_req (of_nat a) 1 (set_state p mem (of_nat a) HoS))"
          by (simp only: step sa)
        ultimately show ?thesis by blast
      next
        case neq: False
        have step: "get_frames_scan p n_req e f run start mem =
            get_frames_scan p n_req e (f + 1) (run + 1) start' mem"
          using lt fr neq by (subst get_frames_scan.simps) (simp add: start'_def Let_def)
        from neq have "unat (run + 1) \<noteq> ?N"
          by (simp add: word_unat_eq_iff)
        with prems(3) ur1 have runlt: "Suc (unat run) < ?N"
          by simp
        have w: "\<forall>a. ?b \<le> a \<and> a + ?N \<le> unat (f + 1) \<longrightarrow> \<not> fits p mem ?N a"
        proof (intro allI impI)
          fix a assume a: "?b \<le> a \<and> a + ?N \<le> unat (f + 1)"
          show "\<not> fits p mem ?N a"
          proof (cases "a + ?N \<le> unat f")
            case True
            with prems(8) a show ?thesis by blast
          next
            case False
            with a uf1 have aN: "a + ?N = Suc (unat f)"
              by simp
            with runlt a have "unat run < unat f - ?b"
              by linarith
            with prems(7) have "\<not> isfree p mem (unat f - unat run - 1)"
              by simp
            moreover from aN runlt have "a \<le> unat f - unat run - 1 \<and> unat f - unat run - 1 < a + ?N"
              by linarith
            ultimately show ?thesis
              unfolding fits_def by blast
          qed
        qed
        have "(\<exists>a. ?b \<le> a \<and> a + ?N \<le> unat e \<and> fits p mem ?N a
              \<and> (\<forall>a'. ?b \<le> a' \<and> a' < a \<longrightarrow> \<not> fits p mem ?N a')
              \<and> get_frames_scan p n_req e (f + 1) (run + 1) start' mem =
                  (of_nat a, get_frames_mark p n_req (of_nat a) 1 (set_state p mem (of_nat a) HoS)))
         \<or> ((\<forall>a. ?b \<le> a \<and> a + ?N \<le> unat e \<longrightarrow> \<not> fits p mem ?N a)
              \<and> get_frames_scan p n_req e (f + 1) (run + 1) start' mem = (0, mem))"
        proof (rule "1.IH"(1) [OF lt fr start'_def refl neq])
          show "?b \<le> unat (f + 1)" using prems(1) uf1 by simp
          show "unat (f + 1) \<le> unat e" using ufe uf1 by simp
          show "unat (run + 1) < ?N" using runlt ur1 by simp
          show "unat (run + 1) \<le> unat (f + 1) - ?b"
            using prems(1,4) uf1 ur1 by simp
          show "\<forall>k. unat (f + 1) - unat (run + 1) \<le> k \<and> k < unat (f + 1) \<longrightarrow> isfree p mem k"
          proof (intro allI impI)
            fix k assume k: "unat (f + 1) - unat (run + 1) \<le> k \<and> k < unat (f + 1)"
            show "isfree p mem k"
            proof (cases "k < unat f")
              case True
              with k prems(5) uf1 ur1 show ?thesis by simp
            next
              case False
              with k uf1 have "k = unat f" by simp
              with free show ?thesis by simp
            qed
          qed
          show "run + 1 \<noteq> 0 \<longrightarrow> start' = f + 1 - (run + 1)"
            by (simp add: s')
          show "unat (run + 1) < unat (f + 1) - ?b \<longrightarrow>
              \<not> isfree p mem (unat (f + 1) - unat (run + 1) - 1)"
            using prems(7) uf1 ur1 by simp
          show "\<forall>a. ?b \<le> a \<and> a + ?N \<le> unat (f + 1) \<longrightarrow> \<not> fits p mem ?N a"
            by (rule w)
        qed
        then show ?thesis
          by (simp only: step)
      qed
    qed
  qed
qed

lemma free_run_fits:
  assumes "N \<noteq> 0"
  shows "free_run p mem s N \<longleftrightarrow>
     unat (base_frame_no p) \<le> unat s \<and> unat s + N \<le> unat (base_frame_no p + n_frames p)
       \<and> fits p mem N (unat s)"
  using assms unfolding free_run_nat fits_def isfree_def by simp

lemma get_frames_cases:
  assumes "n_req \<noteq> 0"
  shows "(\<exists>s. free_run p mem s (unat n_req)
            \<and> (\<forall>s'. free_run p mem s' (unat n_req) \<longrightarrow> s \<le> s')
            \<and> get_frames p n_req mem = (s, get_frames_mark p n_req s 1 (set_state p mem s HoS)))
       \<or> ((\<forall>s. \<not> free_run p mem s (unat n_req)) \<and> get_frames p n_req mem = (0, mem))"
proof -
  let ?b = "unat (base_frame_no p)"
  let ?e = "base_frame_no p + n_frames p"
  let ?N = "unat n_req"
  from assms have N: "?N \<noteq> 0"
    by (simp add: unat_eq_0)
  have gf: "get_frames p n_req mem = get_frames_scan p n_req ?e (base_frame_no p) 0 0 mem"
    using assms by (simp add: get_frames_def)
  show ?thesis
  proof (cases "?b \<le> unat ?e")
    case False
    then have "\<not> base_frame_no p < ?e"
      by (simp add: word_less_nat_alt)
    then have "get_frames_scan p n_req ?e (base_frame_no p) 0 0 mem = (0, mem)"
      by (subst get_frames_scan.simps) simp
    moreover have "\<not> free_run p mem s ?N" for s
      using False N by (simp add: free_run_fits)
    ultimately show ?thesis
      using gf by simp
  next
    case True
    have "(\<exists>a. ?b \<le> a \<and> a + ?N \<le> unat ?e \<and> fits p mem ?N a
            \<and> (\<forall>a'. ?b \<le> a' \<and> a' < a \<longrightarrow> \<not> fits p mem ?N a')
            \<and> get_frames_scan p n_req ?e (base_frame_no p) 0 0 mem =
                (of_nat a, get_frames_mark p n_req (of_nat a) 1 (set_state p mem (of_nat a) HoS)))
       \<or> ((\<forall>a. ?b \<le> a \<and> a + ?N \<le> unat ?e \<longrightarrow> \<not> fits p mem ?N a)
            \<and> get_frames_scan p n_req ?e (base_frame_no p) 0 0 mem = (0, mem))"
    proof (rule get_frames_scan_inv)
      show "?b \<le> unat (base_frame_no p)" by simp
      show "unat (base_frame_no p) \<le> unat ?e" by (rule True)
      show "unat (0 :: ulong) < ?N" using N by simp
      show "unat (0 :: ulong) \<le> unat (base_frame_no p) - ?b" by simp
      show "\<forall>k. unat (base_frame_no p) - unat (0 :: ulong) \<le> k \<and> k < unat (base_frame_no p)
          \<longrightarrow> isfree p mem k"
        by auto
      show "(0 :: ulong) \<noteq> 0 \<longrightarrow> (0 :: ulong) = base_frame_no p - 0" by simp
      show "unat (0 :: ulong) < unat (base_frame_no p) - ?b \<longrightarrow>
          \<not> isfree p mem (unat (base_frame_no p) - unat (0 :: ulong) - 1)"
        by simp
      show "\<forall>a. ?b \<le> a \<and> a + ?N \<le> unat (base_frame_no p) \<longrightarrow> \<not> fits p mem ?N a"
        using N by auto
    qed
    then show ?thesis
    proof (elim disjE exE conjE)
      fix a
      assume a: "?b \<le> a" "a + ?N \<le> unat ?e" "fits p mem ?N a"
        and least: "\<forall>a'. ?b \<le> a' \<and> a' < a \<longrightarrow> \<not> fits p mem ?N a'"
        and res: "get_frames_scan p n_req ?e (base_frame_no p) 0 0 mem =
                (of_nat a, get_frames_mark p n_req (of_nat a) 1 (set_state p mem (of_nat a) HoS))"
      define s :: ulong where "s = of_nat a"
      have "unat ?e < 2 ^ 32"
        using unsigned_less[of ?e] by simp
      with a(2) have "a < 2 ^ 32" by linarith
      then have us: "unat s = a"
        unfolding s_def by (subst unat_of_nat) simp
      have "free_run p mem s ?N"
        using a N by (simp add: free_run_fits us)
      moreover have "s \<le> s'" if "free_run p mem s' ?N" for s'
      proof -
        from that N have "?b \<le> unat s'" "fits p mem ?N (unat s')"
          by (simp_all add: free_run_fits)
        with least have "\<not> unat s' < a" by blast
        then show ?thesis
          by (simp add: word_le_nat_alt us)
      qed
      moreover have "get_frames p n_req mem =
          (s, get_frames_mark p n_req s 1 (set_state p mem s HoS))"
        by (simp only: gf res s_def)
      ultimately show ?thesis by blast
    next
      assume none: "\<forall>a. ?b \<le> a \<and> a + ?N \<le> unat ?e \<longrightarrow> \<not> fits p mem ?N a"
        and res: "get_frames_scan p n_req ?e (base_frame_no p) 0 0 mem = (0, mem)"
      have "\<not> free_run p mem s ?N" for s
        using none N by (auto simp: free_run_fits)
      with res gf show ?thesis by simp
    qed
  qed
qed

subsection \<open>First fit\<close>

lemma free_run_in_range: "free_run p mem s N \<Longrightarrow> N \<noteq> 0 \<Longrightarrow> in_range p s"
  by (simp add: free_run_fits in_range_nat)

lemma free_run_shorter: "free_run p mem s N \<Longrightarrow> M \<le> N \<Longrightarrow> free_run p mem s M"
  by (simp add: free_run_def)

lemma all_less_two: "(\<forall>i<2::nat. P i) \<longleftrightarrow> P 0 \<and> P 1"
  by (auto simp: less_2_cases_iff)

text \<open>
  Claim C2. For a request of at least one frame, a nonzero result of \<open>get_frames\<close> is
  the lowest frame number \<open>f\<close> for which the \<open>n\<close> frames from \<open>f\<close> on all lie in the
  usable range and are Free in the state before the call: first fit.
\<close>

theorem get_frames_first_fit:
  assumes "1 \<le> n_req" and "fst (get_frames p n_req mem) \<noteq> 0"
  shows "free_run p mem (fst (get_frames p n_req mem)) (unat n_req)
       \<and> (\<forall>s. free_run p mem s (unat n_req) \<longrightarrow> fst (get_frames p n_req mem) \<le> s)"
proof -
  from assms(1) have "n_req \<noteq> 0" by auto
  from get_frames_cases [OF this, of p mem] assms(2) show ?thesis
    by auto
qed

theorem get_frames_first_fit_witness:
  "(1 :: uint) \<le> 2
   \<and> fst (get_frames \<lparr>base_frame_no = 8, n_frames = 8, info_frame_no = 1, bitmap = 4096, bitmap_size = 2\<rparr>
          2 ((\<lambda>_. 0)(4096 := 34))) = 11
   \<and> free_run \<lparr>base_frame_no = 8, n_frames = 8, info_frame_no = 1, bitmap = 4096, bitmap_size = 2\<rparr>
        ((\<lambda>_. 0)(4096 := 34)) 11 2
   \<and> free_run \<lparr>base_frame_no = 8, n_frames = 8, info_frame_no = 1, bitmap = 4096, bitmap_size = 2\<rparr>
        ((\<lambda>_. 0)(4096 := 34)) 13 2
   \<and> (11 :: ulong) \<le> 13"
proof -
  let ?P = "\<lparr>base_frame_no = 8, n_frames = 8, info_frame_no = 1, bitmap = 4096, bitmap_size = 2\<rparr>
      :: ContFramePool"
  let ?M = "(\<lambda>_. 0)(4096 := 34) :: memory"
  have n: "(1 :: uint) \<le> 2" by simp
  have r: "fst (get_frames ?P 2 ?M) = 11"
    by (simp add: get_frames_def get_frames_scan.simps get_state_def Let_def state_of_code_def)
  then have nz: "fst (get_frames ?P 2 ?M) \<noteq> 0" by simp
  have later: "free_run ?P ?M 13 2"
    by (simp add: free_run_def all_less_two in_range_def get_state_def Let_def state_of_code_def)
  from get_frames_first_fit [OF n nz] later
  have "free_run ?P ?M 11 2 \<and> (11 :: ulong) \<le> 13"
    by (simp add: r)
  with n r later show ?thesis by simp
qed

text \<open>
  Claim C5, as stated, fails for a pool whose usable range holds frame 0: the first fit
  can then be frame 0 itself, and \<open>get_frames\<close> returns 0 although it has allocated.
  The constructor called with base 0, four frames and its map in frame 8 builds the pool
  over frames 0 to 3 with an empty map; \<open>get_frames(1)\<close> on it marks frame 0 as HoS
  and returns 0.
\<close>

theorem get_frames_zero_counterexample:
  "ContFramePool_init 4096 0 4 8 (\<lambda>_. 0) =
     (\<lparr>base_frame_no = 0, n_frames = 4, info_frame_no = 8, bitmap = 32768, bitmap_size = 1\<rparr>,
      (\<lambda>_. 0))
   \<and> get_state \<lparr>base_frame_no = 0, n_frames = 4, info_frame_no = 8, bitmap = 32768,
                bitmap_size = 1\<rparr>
        (snd (get_frames \<lparr>base_frame_no = 0, n_frames = 4, info_frame_no = 8, bitmap = 32768,
                bitmap_size = 1\<rparr> 1 (\<lambda>_. 0))) 0 = HoS
   \<and> \<not> (fst (get_frames \<lparr>base_frame_no = 0, n_frames = 4, info_frame_no = 8, bitmap = 32768,
                bitmap_size = 1\<rparr> 1 (\<lambda>_. 0)) = 0
       \<longleftrightarrow> (1 :: uint) = 0
          \<or> \<not> (\<exists>s. free_run \<lparr>base_frame_no = 0, n_frames = 4, info_frame_no = 8, bitmap = 32768,
                bitmap_size = 1\<rparr> (\<lambda>_. 0) s (unat (1 :: uint))))"
proof -
  let ?P = "\<lparr>base_frame_no = 0, n_frames = 4, info_frame_no = 8, bitmap = 32768,
                bitmap_size = 1\<rparr> :: ContFramePool"
  have "ContFramePool_init 4096 0 4 8 (\<lambda>_. 0) = (?P, (\<lambda>_. 0))"
    by (simp add: ContFramePool_init_def Let_def ctor_zero.simps fun_eq_iff)
  moreover have "get_state ?P (snd (get_frames ?P 1 (\<lambda>_. 0))) 0 = HoS"
    by (simp add: get_frames_def get_frames_scan.simps get_frames_mark.simps get_state_def
        set_state_def Let_def state_code_def state_of_code_def)
  moreover have "fst (get_frames ?P 1 (\<lambda>_. 0)) = 0"
    by (simp add: get_frames_def get_frames_scan.simps get_state_def Let_def state_of_code_def)
  moreover have "free_run ?P (\<lambda>_. 0) 0 (unat (1 :: uint))"
    by (simp add: free_run_def in_range_def get_state_def Let_def state_of_code_def)
  ultimately show ?thesis by auto
qed

text \<open>
  Claim C5, amended. For a pool whose usable range does not hold frame 0,
  \<open>get_frames(n)\<close> returns 0 exactly when \<open>n\<close> is 0 or no \<open>n\<close> consecutive frames of
  the usable range are all Free. So it returns a nonzero frame whenever some free run
  is at least \<open>n\<close> long.
\<close>

theorem get_frames_zero_iff:
  assumes "\<not> in_range p 0"
  shows "(fst (get_frames p n_req mem) = 0
            \<longleftrightarrow> n_req = 0 \<or> \<not> (\<exists>s. free_run p mem s (unat n_req)))
       \<and> (\<forall>s k. n_req \<noteq> 0 \<and> unat n_req \<le> k \<and> free_run p mem s k
              \<longrightarrow> fst (get_frames p n_req mem) \<noteq> 0)"
proof -
  have iff: "fst (get_frames p n_req mem) = 0
            \<longleftrightarrow> n_req = 0 \<or> \<not> (\<exists>s. free_run p mem s (unat n_req))"
  proof (cases "n_req = 0")
    case True
    then show ?thesis by (simp add: get_frames_def)
  next
    case False
    then have N: "unat n_req \<noteq> 0" by (simp add: unat_eq_0)
    from get_frames_cases [OF False, of p mem] show ?thesis
    proof (elim disjE exE conjE)
      fix s
      assume s: "free_run p mem s (unat n_req)"
        and res: "get_frames p n_req mem = (s, get_frames_mark p n_req s 1 (set_state p mem s HoS))"
      from s N have "in_range p s" by (rule free_run_in_range)
      with assms have "s \<noteq> 0" by auto
      with s res False show ?thesis by auto
    next
      assume "\<forall>s. \<not> free_run p mem s (unat n_req)" "get_frames p n_req mem = (0, mem)"
      then show ?thesis by simp
    qed
  qed
  moreover have "fst (get_frames p n_req mem) \<noteq> 0"
    if "n_req \<noteq> 0" "unat n_req \<le> k" "free_run p mem s k" for s k
  proof -
    from that(3,2) have "free_run p mem s (unat n_req)" by (rule free_run_shorter)
    with iff that(1) show ?thesis by blast
  qed
  ultimately show ?thesis by blast
qed

theorem get_frames_zero_iff_witness:
  "\<not> in_range \<lparr>base_frame_no = 8, n_frames = 8, info_frame_no = 1, bitmap = 4096, bitmap_size = 2\<rparr> 0
   \<and> fst (get_frames \<lparr>base_frame_no = 8, n_frames = 8, info_frame_no = 1, bitmap = 4096, bitmap_size = 2\<rparr>
          2 ((\<lambda>_. 0)(4096 := 34, 4097 := 170))) = 0
   \<and> \<not> (\<exists>s. free_run \<lparr>base_frame_no = 8, n_frames = 8, info_frame_no = 1, bitmap = 4096, bitmap_size = 2\<rparr>
          ((\<lambda>_. 0)(4096 := 34, 4097 := 170)) s (unat (2 :: uint)))
   \<and> free_run \<lparr>base_frame_no = 8, n_frames = 8, info_frame_no = 1, bitmap = 4096, bitmap_size = 2\<rparr>
          ((\<lambda>_. 0)(4096 := 34, 4097 := 170)) 9 1
   \<and> fst (get_frames \<lparr>base_frame_no = 8, n_frames = 8, info_frame_no = 1, bitmap = 4096, bitmap_size = 2\<rparr>
          1 ((\<lambda>_. 0)(4096 := 34, 4097 := 170))) \<noteq> 0"
proof -
  let ?P = "\<lparr>base_frame_no = 8, n_frames = 8, info_frame_no = 1, bitmap = 4096, bitmap_size = 2\<rparr>
      :: ContFramePool"
  let ?M = "(\<lambda>_. 0)(4096 := 34, 4097 := 170) :: memory"
  have h: "\<not> in_range ?P 0"
    by (simp add: in_range_def)
  have r: "fst (get_frames ?P 2 ?M) = 0"
    by (simp add: get_frames_def get_frames_scan.simps get_state_def Let_def state_of_code_def)
  have one: "free_run ?P ?M 9 1"
    by (simp add: free_run_def in_range_def get_state_def Let_def state_of_code_def)
  from get_frames_zero_iff [OF h, of 2 ?M] r
  have none: "\<not> (\<exists>s. free_run ?P ?M s (unat (2 :: uint)))"
    by simp
  from get_frames_zero_iff [OF h, of 1 ?M] one
  have "fst (get_frames ?P 1 ?M) \<noteq> 0"
    by (metis unat_1 zero_neq_one)
  with h r one none show ?thesis by blast
qed

section \<open>The map after an allocation and after a release\<close>

lemma frame_update:
  assumes "pool_fits p" "in_range p f" "in_range p g"
  shows "get_state p (set_state p mem f s) g = (if g = f then s else get_state p mem g)"
proof (cases "g = f")
  case True
  then show ?thesis by (simp add: get_set_same)
next
  case False
  from assms have "unat (f - base_frame_no p) < 2 ^ 31" "unat (g - base_frame_no p) < 2 ^ 31"
    using in_range_rel[of p f] in_range_rel[of p g] by (simp_all add: pool_fits_def)
  with False have "slot_bit p f \<noteq> slot_bit p g"
    using slot_bit_inj by blast
  with False show ?thesis
    by (simp add: get_set_other)
qed

lemma unat_plus_in_range:
  fixes s i :: ulong
  assumes "unat s + unat i < unat (e :: ulong)"
  shows "unat (s + i) = unat s + unat i"
proof -
  have "unat e < 2 ^ 32"
    using unsigned_less[of e] by simp
  with assms have "unat s + unat i < 2 ^ 32" by linarith
  then show ?thesis
    by (simp add: unat_word_ariths)
qed

lemma get_frames_mark_spec:
  assumes "pool_fits p" and "in_range p g"
    and "unat (base_frame_no p) \<le> unat s"
    and "unat s + unat n_req \<le> unat (base_frame_no p + n_frames p)"
  shows "get_state p (get_frames_mark p n_req s i mem) g =
     (if unat s + unat i \<le> unat g \<and> unat g < unat s + unat n_req then Used
      else get_state p mem g)"
  using assms
proof (induction p n_req s i mem rule: get_frames_mark.induct)
  case (1 p n_req start i mem)
  show ?case
  proof (cases "i < n_req")
    case False
    then have "unat n_req \<le> unat i"
      by (simp add: word_less_nat_alt)
    moreover have "get_frames_mark p n_req start i mem = mem"
      using False by (subst get_frames_mark.simps) simp
    ultimately show ?thesis by auto
  next
    case True
    then have ui: "unat i < unat n_req"
      by (simp add: word_less_nat_alt)
    from True have ui1: "unat (i + 1) = Suc (unat i)"
      by (rule unat_succ_less)
    from ui "1.prems"(4) have "unat start + unat i < unat (base_frame_no p + n_frames p)"
      by linarith
    then have us: "unat (start + i) = unat start + unat i"
      by (rule unat_plus_in_range)
    with "1.prems"(3,4) ui have r: "in_range p (start + i)"
      by (simp add: in_range_nat)
    have eq: "g = start + i \<longleftrightarrow> unat g = unat start + unat i"
      using us by (metis word_unat_eq_iff)
    have "get_frames_mark p n_req start i mem =
        get_frames_mark p n_req start (i + 1) (set_state p mem (start + i) Used)"
      using True by (subst get_frames_mark.simps) simp
    then have "get_state p (get_frames_mark p n_req start i mem) g =
        get_state p (get_frames_mark p n_req start (i + 1) (set_state p mem (start + i) Used)) g"
      by simp
    also have "\<dots> =
        (if unat start + unat (i + 1) \<le> unat g \<and> unat g < unat start + unat n_req then Used
         else get_state p (set_state p mem (start + i) Used) g)"
      by (rule "1.IH" [OF True "1.prems"])
    also have "\<dots> = (if unat start + unat i \<le> unat g \<and> unat g < unat start + unat n_req then Used
         else get_state p mem g)"
      using ui by (auto simp: frame_update [OF "1.prems"(1) r "1.prems"(2)] eq ui1)
    finally show ?thesis .
  qed
qed

lemma get_frames_post:
  assumes fits: "pool_fits p" and g: "in_range p g" and n: "n_req \<noteq> 0"
    and run: "free_run p mem r (unat n_req)"
    and res: "get_frames p n_req mem = (r, mem')"
  shows "get_state p mem' g =
     (if unat r \<le> unat g \<and> unat g < unat r + unat n_req
      then if g = r then HoS else Used
      else get_state p mem g)"
proof -
  from n have N: "unat n_req \<noteq> 0" by (simp add: unat_eq_0)
  from get_frames_cases [OF n, of p mem] run res
  have mem': "mem' = get_frames_mark p n_req r 1 (set_state p mem r HoS)"
    by auto
  from run N have lo: "unat (base_frame_no p) \<le> unat r"
    and hi: "unat r + unat n_req \<le> unat (base_frame_no p + n_frames p)"
    by (simp_all add: free_run_fits)
  from run N have r: "in_range p r" by (rule free_run_in_range)
  have "get_state p mem' g =
     (if unat r + unat (1 :: ulong) \<le> unat g \<and> unat g < unat r + unat n_req then Used
      else get_state p (set_state p mem r HoS) g)"
    unfolding mem' using fits g lo hi by (rule get_frames_mark_spec)
  also have "\<dots> = (if unat r \<le> unat g \<and> unat g < unat r + unat n_req
      then if g = r then HoS else Used
      else get_state p mem g)"
    using N by (auto simp: frame_update [OF fits r g] word_unat_eq_iff)
  finally show ?thesis .
qed

lemma release_walk_spec:
  assumes "pool_fits p" and "in_range p g" and "base_frame_no p \<le> f"
  shows "get_state p (release_walk p (base_frame_no p + n_frames p) f mem) g =
     (if f \<le> g \<and> (\<forall>x. f \<le> x \<and> x \<le> g \<longrightarrow> get_state p mem x = Used) then Free
      else get_state p mem g)"
  using assms
proof (induction p "base_frame_no p + n_frames p" f mem rule: release_walk.induct)
  case (1 p f mem)
  let ?e = "base_frame_no p + n_frames p"
  from "1.prems"(2) have ge: "g < ?e"
    by (simp add: in_range_def)
  show ?case
  proof (cases "f < ?e \<and> get_state p mem f = Used")
    case False
    have "release_walk p ?e f mem = mem"
      using False by (subst release_walk.simps) auto
    moreover have "\<not> (f \<le> g \<and> (\<forall>x. f \<le> x \<and> x \<le> g \<longrightarrow> get_state p mem x = Used))"
    proof
      assume a: "f \<le> g \<and> (\<forall>x. f \<le> x \<and> x \<le> g \<longrightarrow> get_state p mem x = Used)"
      then have "f \<le> g" by (rule conjunct1)
      then have "f < ?e" using ge by (rule le_less_trans)
      moreover from a have "get_state p mem f = Used" by blast
      ultimately show False using False by blast
    qed
    ultimately show ?thesis by simp
  next
    case True
    then have lt: "f < ?e" and used: "get_state p mem f = Used"
      by simp_all
    from lt "1.prems"(3) have rf: "in_range p f"
      by (simp add: in_range_def)
    from lt have uf1: "unat (f + 1) = Suc (unat f)"
      by (rule unat_succ_less)
    from "1.prems"(3) uf1 have b1: "base_frame_no p \<le> f + 1"
      by (simp add: word_le_nat_alt)
    let ?mem1 = "set_state p mem f Free"
    have upd: "get_state p ?mem1 x = (if x = f then Free else get_state p mem x)"
      if "in_range p x" for x
      using "1.prems"(1) rf that by (rule frame_update)
    have inr: "in_range p x" if "f \<le> x" "x \<le> g" for x
      using that "1.prems"(2,3) by (auto simp: in_range_def)
    have "release_walk p ?e f mem = release_walk p ?e (f + 1) ?mem1"
      using True by (subst release_walk.simps) simp
    then have "get_state p (release_walk p ?e f mem) g =
        get_state p (release_walk p ?e (f + 1) ?mem1) g"
      by simp
    also have "\<dots> =
        (if f + 1 \<le> g \<and> (\<forall>x. f + 1 \<le> x \<and> x \<le> g \<longrightarrow> get_state p ?mem1 x = Used) then Free
         else get_state p ?mem1 g)"
      by (rule "1.hyps" [OF True "1.prems"(1,2) b1])
    also have "\<dots> =
        (if f \<le> g \<and> (\<forall>x. f \<le> x \<and> x \<le> g \<longrightarrow> get_state p mem x = Used) then Free
         else get_state p mem g)"
    proof (cases "g = f")
      case True
      have "\<not> f + 1 \<le> f"
        using uf1 by (simp add: word_le_nat_alt)
      with True used upd [OF "1.prems"(2)] show ?thesis
        by auto
    next
      case False
      have le: "f + 1 \<le> x \<longleftrightarrow> f \<le> x \<and> x \<noteq> f" for x
        using uf1 by (auto simp: word_le_nat_alt word_unat_eq_iff)
      have "(\<forall>x. f + 1 \<le> x \<and> x \<le> g \<longrightarrow> get_state p ?mem1 x = Used)
          \<longleftrightarrow> (\<forall>x. f \<le> x \<and> x \<le> g \<longrightarrow> get_state p mem x = Used)"
        using used by (auto simp: le upd inr)
      with False upd [OF "1.prems"(2)] show ?thesis
        by (simp add: le)
    qed
    finally show ?thesis .
  qed
qed

lemma release_scan_owner:
  assumes "p \<in> set ps" "in_range p h" "get_state p (ram m) h = HoS"
    and "\<forall>q \<in> set ps. in_range q h \<longrightarrow> q = p"
  shows "release_scan ps h m =
     m\<lparr>ram := release_walk p (base_frame_no p + n_frames p) (h + 1) (set_state p (ram m) h Free)\<rparr>"
  using assms
proof (induction ps)
  case Nil
  from Nil.prems(1) show ?case by simp
next
  case (Cons q ps)
  show ?case
  proof (cases "in_range q h")
    case True
    with Cons.prems(4) have "q = p" by simp
    with Cons.prems(2,3) show ?thesis
      by (simp only: release_scan_Cons if_True simp_thms if_False)
  next
    case False
    with Cons.prems(1,2) have a: "p \<in> set ps" by auto
    from Cons.prems(4) have b: "\<forall>q \<in> set ps. in_range q h \<longrightarrow> q = p"
      by simp
    have "release_scan ps h m =
       m\<lparr>ram := release_walk p (base_frame_no p + n_frames p) (h + 1) (set_state p (ram m) h Free)\<rparr>"
      by (rule Cons.IH [OF a Cons.prems(2,3) b])
    with False show ?thesis
      by (simp only: release_scan_Cons if_False)
  qed
qed

lemma release_post:
  assumes fits: "pool_fits p" and h: "in_range p h" and g: "in_range p g"
  shows "get_state p (release_walk p (base_frame_no p + n_frames p) (h + 1) (set_state p mem h Free)) g =
     (if released p mem h g then Free else get_state p mem g)"
proof -
  let ?e = "base_frame_no p + n_frames p"
  let ?mem1 = "set_state p mem h Free"
  from h have lt: "h < ?e" and lo: "base_frame_no p \<le> h"
    by (simp_all add: in_range_def)
  from lt have uh1: "unat (h + 1) = Suc (unat h)"
    by (rule unat_succ_less)
  have le: "h + 1 \<le> x \<longleftrightarrow> h < x" for x
    using uh1 by (auto simp: word_le_nat_alt word_less_nat_alt)
  from lo uh1 have b1: "base_frame_no p \<le> h + 1"
    by (simp add: word_le_nat_alt)
  have upd: "get_state p ?mem1 x = (if x = h then Free else get_state p mem x)"
    if "in_range p x" for x
    using fits h that by (rule frame_update)
  have inr: "in_range p x" if "h < x" "x \<le> g" for x
    using that g lo by (auto simp: in_range_def)
  have walk: "get_state p (release_walk p ?e (h + 1) ?mem1) g =
     (if h + 1 \<le> g \<and> (\<forall>x. h + 1 \<le> x \<and> x \<le> g \<longrightarrow> get_state p ?mem1 x = Used) then Free
      else get_state p ?mem1 g)"
    using fits g b1 by (rule release_walk_spec)
  have all: "(\<forall>x. h < x \<and> x \<le> g \<longrightarrow> get_state p ?mem1 x = Used)
      \<longleftrightarrow> (\<forall>x. h < x \<and> x \<le> g \<longrightarrow> get_state p mem x = Used)"
    by (auto simp: upd inr)
  have "get_state p (release_walk p ?e (h + 1) ?mem1) g =
     (if h < g \<and> (\<forall>x. h < x \<and> x \<le> g \<longrightarrow> get_state p mem x = Used) then Free
      else if g = h then Free else get_state p mem g)"
    by (simp only: walk le all upd [OF g])
  also have "\<dots> = (if released p mem h g then Free else get_state p mem g)"
    unfolding released_def by (cases "g = h") auto
  finally show ?thesis .
qed

lemma release_frames_owner:
  assumes "p \<in> set (pools m)" "in_range p h" "get_state p (ram m) h = HoS"
    and "\<forall>q \<in> set (pools m). in_range q h \<longrightarrow> q = p"
  shows "release_frames h m =
     m\<lparr>ram := release_walk p (base_frame_no p + n_frames p) (h + 1) (set_state p (ram m) h Free)\<rparr>"
  unfolding release_frames_def using assms by (rule release_scan_owner)

section \<open>Run integrity\<close>

lemma unat_pred: "(b :: ulong) < g \<Longrightarrow> unat (g - 1) = unat g - 1"
  by unat_arith

lemma in_range_pred: "in_range p g \<Longrightarrow> base_frame_no p < g \<Longrightarrow> in_range p (g - 1)"
  unfolding in_range_def by unat_arith

lemma le_pred_iff: "(b :: ulong) < g \<Longrightarrow> x \<le> g \<longleftrightarrow> x \<le> g - 1 \<or> x = g"
  by unat_arith

lemma free_run_frame:
  assumes "free_run p mem s N" "unat s \<le> unat g" "unat g < unat s + N"
  shows "get_state p mem g = Free"
proof -
  from assms have "N \<noteq> 0" by auto
  with assms(1) have "fits p mem N (unat s)"
    by (simp add: free_run_fits)
  with assms(2,3) have "isfree p mem (unat g)"
    by (simp add: fits_def)
  then show ?thesis
    by (simp add: isfree_unat)
qed

lemma well_formed_get_frames:
  assumes wf: "well_formed p mem" and fits: "pool_fits p"
  shows "well_formed p (snd (get_frames p n_req mem))"
proof (cases "n_req = 0")
  case True
  with wf show ?thesis by (simp add: get_frames_def)
next
  case n: False
  then have N: "unat n_req \<noteq> 0" by (simp add: unat_eq_0)
  from get_frames_cases [OF n, of p mem] show ?thesis
  proof (elim disjE exE conjE)
    assume "get_frames p n_req mem = (0, mem)"
    with wf show ?thesis by simp
  next
    fix s
    assume run: "free_run p mem s (unat n_req)"
      and res: "get_frames p n_req mem = (s, get_frames_mark p n_req s 1 (set_state p mem s HoS))"
    let ?mem' = "get_frames_mark p n_req s 1 (set_state p mem s HoS)"
    let ?W = "\<lambda>g. unat s \<le> unat g \<and> unat g < unat s + unat n_req"
    have post: "get_state p ?mem' g =
        (if ?W g then if g = s then HoS else Used else get_state p mem g)" if "in_range p g" for g
      using fits that n run res by (rule get_frames_post)
    from run N have s: "in_range p s" by (rule free_run_in_range)
    have "get_state p ?mem' g \<noteq> Unnamed \<and>
        (get_state p ?mem' g = Used \<longrightarrow>
           base_frame_no p < g \<and> get_state p ?mem' (g - 1) \<in> {Used, HoS})"
      if g: "in_range p g" for g
    proof (cases "?W g")
      case inW: True
      show ?thesis
      proof (cases "g = s")
        case True
        with inW g show ?thesis by (simp add: post)
      next
        case False
        with inW have sg: "unat s < unat g"
          by (auto simp: word_unat_eq_iff)
        then have "s < g" by (simp add: word_less_nat_alt)
        with s have bg: "base_frame_no p < g"
          by (auto simp: in_range_def)
        then have g1: "in_range p (g - 1)" and u1: "unat (g - 1) = unat g - 1"
          using g by (simp_all add: in_range_pred unat_pred)
        from sg inW u1 have "?W (g - 1)" by linarith
        then have "get_state p ?mem' (g - 1) \<in> {Used, HoS}"
          by (simp add: post [OF g1])
        with inW False bg g show ?thesis
          by (simp add: post)
      qed
    next
      case notW: False
      then have same: "get_state p ?mem' g = get_state p mem g"
        by (auto simp: post [OF g])
      from wf g have a: "get_state p mem g \<noteq> Unnamed"
        and b: "get_state p mem g = Used \<Longrightarrow>
            base_frame_no p < g \<and> get_state p mem (g - 1) \<in> {Used, HoS}"
        by (simp_all add: well_formed_def)
      show ?thesis
      proof (cases "get_state p mem g = Used")
        case False
        with a same show ?thesis by simp
      next
        case True
        with b have bg: "base_frame_no p < g" and pr: "get_state p mem (g - 1) \<in> {Used, HoS}"
          by simp_all
        from bg g have g1: "in_range p (g - 1)" and u1: "unat (g - 1) = unat g - 1"
          by (simp_all add: in_range_pred unat_pred)
        have "\<not> ?W (g - 1)"
        proof
          assume "?W (g - 1)"
          with run have "get_state p mem (g - 1) = Free"
            by (blast intro: free_run_frame)
          with pr show False by simp
        qed
        then have "get_state p ?mem' (g - 1) = get_state p mem (g - 1)"
          by (auto simp: post [OF g1])
        with same a bg pr show ?thesis by simp
      qed
    qed
    then have "well_formed p ?mem'"
      unfolding well_formed_def by blast
    with res show ?thesis by simp
  qed
qed

lemma released_succ:
  assumes "released p mem h (g - 1)" "get_state p mem g = Used" "b < g"
  shows "released p mem h g"
proof -
  from assms(3) have le: "x \<le> g \<longleftrightarrow> x \<le> g - 1 \<or> x = g" for x
    by (rule le_pred_iff)
  from assms(1) have "h \<le> g - 1"
    and u: "\<And>x. h < x \<Longrightarrow> x \<le> g - 1 \<Longrightarrow> get_state p mem x = Used"
    by (simp_all add: released_def)
  then have "h \<le> g" by (simp add: le)
  moreover have "get_state p mem x = Used" if "h < x" "x \<le> g" for x
    using that u assms(2) by (auto simp: le)
  ultimately show ?thesis
    by (simp add: released_def)
qed

lemma well_formed_release_walk:
  assumes wf: "well_formed p mem" and fits: "pool_fits p" and h: "in_range p h"
  shows "well_formed p (release_walk p (base_frame_no p + n_frames p) (h + 1) (set_state p mem h Free))"
proof -
  let ?mem' = "release_walk p (base_frame_no p + n_frames p) (h + 1) (set_state p mem h Free)"
  have post: "get_state p ?mem' g = (if released p mem h g then Free else get_state p mem g)"
    if "in_range p g" for g
    using fits h that by (rule release_post)
  have "get_state p ?mem' g \<noteq> Unnamed \<and>
      (get_state p ?mem' g = Used \<longrightarrow>
         base_frame_no p < g \<and> get_state p ?mem' (g - 1) \<in> {Used, HoS})"
    if g: "in_range p g" for g
  proof -
    from wf g have a: "get_state p mem g \<noteq> Unnamed"
      and b: "get_state p mem g = Used \<Longrightarrow>
          base_frame_no p < g \<and> get_state p mem (g - 1) \<in> {Used, HoS}"
      by (simp_all add: well_formed_def)
    show ?thesis
    proof (cases "get_state p ?mem' g = Used")
      case False
      with a show ?thesis by (simp add: post [OF g])
    next
      case True
      then have nr: "\<not> released p mem h g" and used: "get_state p mem g = Used"
        by (auto simp: post [OF g] split: if_splits)
      from b [OF used] have bg: "base_frame_no p < g"
        and pr: "get_state p mem (g - 1) \<in> {Used, HoS}"
        by simp_all
      from bg g have g1: "in_range p (g - 1)"
        by (simp add: in_range_pred)
      have "\<not> released p mem h (g - 1)"
        using nr used bg released_succ by blast
      then have "get_state p ?mem' (g - 1) = get_state p mem (g - 1)"
        by (simp add: post [OF g1])
      with True bg pr show ?thesis by simp
    qed
  qed
  then show ?thesis
    unfolding well_formed_def by blast
qed

subsection \<open>Other pools of the registry\<close>

lemma get_state_byte:
  "mem' (map_byte p f) = mem (map_byte p f) \<Longrightarrow> get_state p mem' f = get_state p mem f"
  unfolding get_state_alt map_byte_def by simp

lemma set_state_elsewhere: "a \<noteq> map_byte q g \<Longrightarrow> set_state q mem g s a = mem a"
  unfolding set_state_alt map_byte_def by simp

lemma release_walk_elsewhere:
  assumes "base_frame_no q \<le> f" and "\<forall>g. in_range q g \<longrightarrow> a \<noteq> map_byte q g"
  shows "release_walk q (base_frame_no q + n_frames q) f mem a = mem a"
  using assms
proof (induction q "base_frame_no q + n_frames q" f mem rule: release_walk.induct)
  case (1 q f mem)
  let ?e = "base_frame_no q + n_frames q"
  show ?case
  proof (cases "f < ?e \<and> get_state q mem f = Used")
    case False
    then show ?thesis
      by (subst release_walk.simps) auto
  next
    case True
    then have lt: "f < ?e" by simp
    with "1.prems"(1) have rf: "in_range q f"
      by (simp add: in_range_def)
    from lt have "unat (f + 1) = Suc (unat f)"
      by (rule unat_succ_less)
    with "1.prems"(1) have b1: "base_frame_no q \<le> f + 1"
      by (simp add: word_le_nat_alt)
    from rf "1.prems"(2) have "a \<noteq> map_byte q f" by blast
    then have here: "set_state q mem f Free a = mem a"
      by (rule set_state_elsewhere)
    have "release_walk q ?e f mem a = release_walk q ?e (f + 1) (set_state q mem f Free) a"
      using True by (subst release_walk.simps) simp
    also have "\<dots> = set_state q mem f Free a"
      by (rule "1.hyps" [OF True b1 "1.prems"(2)])
    finally show ?thesis
      using here by simp
  qed
qed

lemma release_scan_cases:
  "(\<exists>line. release_scan ps h m = m\<lparr>console := console m @ [line]\<rparr>)
   \<or> (\<exists>q \<in> set ps. in_range q h \<and>
         release_scan ps h m =
           m\<lparr>ram := release_walk q (base_frame_no q + n_frames q) (h + 1)
                           (set_state q (ram m) h Free)\<rparr>)"
proof (induction ps)
  case Nil
  show ?case by (simp only: release_scan.simps(1)) blast
next
  case (Cons q ps)
  show ?case
  proof (cases "in_range q h")
    case False
    with Cons.IH show ?thesis
      by (simp only: release_scan_Cons if_False) auto
  next
    case True
    show ?thesis
    proof (cases "get_state q (ram m) h \<noteq> HoS")
      case ne: True
      with True have "release_scan (q # ps) h m =
          m\<lparr>console := console m @ [''Error: Frame is not Head-of-Sequence'' @ [CHR 0x0A]]\<rparr>"
        by (simp only: release_scan_Cons if_True simp_thms)
      then show ?thesis by blast
    next
      case False
      with True have "release_scan (q # ps) h m =
          m\<lparr>ram := release_walk q (base_frame_no q + n_frames q) (h + 1)
                          (set_state q (ram m) h Free)\<rparr>"
        by (simp only: release_scan_Cons if_True if_False simp_thms)
      with True show ?thesis by auto
    qed
  qed
qed

lemma release_other_pool:
  assumes ap: "apart p q" and h: "in_range q h" and f: "in_range p f"
  shows "get_state p (release_walk q (base_frame_no q + n_frames q) (h + 1)
            (set_state q mem h Free)) f = get_state p mem f"
proof (rule get_state_byte)
  let ?a = "map_byte p f"
  from ap f have away: "\<forall>g. in_range q g \<longrightarrow> ?a \<noteq> map_byte q g"
    by (auto simp: apart_def)
  from h have "h < base_frame_no q + n_frames q" and lo: "base_frame_no q \<le> h"
    by (simp_all add: in_range_def)
  then have "unat (h + 1) = Suc (unat h)"
    by (simp add: unat_succ_less)
  with lo have b1: "base_frame_no q \<le> h + 1"
    by (simp add: word_le_nat_alt)
  have "release_walk q (base_frame_no q + n_frames q) (h + 1) (set_state q mem h Free) ?a
      = set_state q mem h Free ?a"
    using b1 away by (rule release_walk_elsewhere)
  also from away h have "\<dots> = mem ?a"
    by (intro set_state_elsewhere) blast
  finally show "release_walk q (base_frame_no q + n_frames q) (h + 1) (set_state q mem h Free) ?a
      = mem ?a" .
qed

lemma well_formed_same_states:
  assumes "well_formed p mem" and "\<And>g. in_range p g \<Longrightarrow> get_state p mem' g = get_state p mem g"
  shows "well_formed p mem'"
  unfolding well_formed_def
proof (intro allI impI)
  fix g assume g: "in_range p g"
  from assms(1) g have a: "get_state p mem g \<noteq> Unnamed"
    and b: "get_state p mem g = Used \<longrightarrow>
        base_frame_no p < g \<and> get_state p mem (g - 1) \<in> {Used, HoS}"
    by (simp_all add: well_formed_def)
  show "get_state p mem' g \<noteq> Unnamed \<and>
      (get_state p mem' g = Used \<longrightarrow>
         base_frame_no p < g \<and> get_state p mem' (g - 1) \<in> {Used, HoS})"
  proof (cases "get_state p mem g = Used")
    case False
    with a show ?thesis by (simp add: assms(2) [OF g])
  next
    case True
    with b have bg: "base_frame_no p < g" and pr: "get_state p mem (g - 1) \<in> {Used, HoS}"
      by simp_all
    from g bg have "in_range p (g - 1)" by (rule in_range_pred)
    then have "get_state p mem' (g - 1) = get_state p mem (g - 1)"
      by (rule assms(2))
    with True bg pr show ?thesis
      by (simp add: assms(2) [OF g])
  qed
qed

lemma well_formed_release_any:
  assumes wf: "well_formed p (ram m)" and fits: "pool_fits p"
    and others: "\<forall>q \<in> set (pools m). q \<noteq> p \<longrightarrow> apart p q"
  shows "well_formed p (ram (release_frames h m)) \<and> pools (release_frames h m) = pools m"
proof -
  from release_scan_cases [of "pools m" h m] show ?thesis
  proof (elim disjE exE bexE conjE)
    fix line
    assume "release_scan (pools m) h m = m\<lparr>console := console m @ [line]\<rparr>"
    with wf show ?thesis by (simp add: release_frames_def)
  next
    fix q
    assume q: "q \<in> set (pools m)" "in_range q h"
      and res: "release_scan (pools m) h m =
           m\<lparr>ram := release_walk q (base_frame_no q + n_frames q) (h + 1)
                           (set_state q (ram m) h Free)\<rparr>"
    let ?mem' = "release_walk q (base_frame_no q + n_frames q) (h + 1) (set_state q (ram m) h Free)"
    have "well_formed p ?mem'"
    proof (cases "q = p")
      case True
      with wf fits q(2) show ?thesis
        by (simp add: well_formed_release_walk)
    next
      case False
      with others q(1) have "apart p q" by blast
      then have "get_state p ?mem' g = get_state p (ram m) g" if "in_range p g" for g
        using q(2) that by (rule release_other_pool)
      with wf show ?thesis
        by (rule well_formed_same_states)
    qed
    with res show ?thesis by (simp add: release_frames_def)
  qed
qed

lemma map_byte_offset:
  assumes "in_range p f" "pool_fits p"
  shows "\<exists>i. 4 * i < unat (n_frames p) \<and> map_byte p f = bitmap p + of_nat i"
proof -
  from assms(1) have r: "unat (f - base_frame_no p) < unat (n_frames p)"
    by (rule in_range_rel)
  with assms(2) have "unat (f - base_frame_no p) < 2 ^ 31"
    by (simp add: pool_fits_def)
  then have "unat (slot_bit p f) = 2 * unat (f - base_frame_no p)"
    by (rule slot_bit_unat)
  then have "unat (drop_bit 3 (slot_bit p f)) = (2 * unat (f - base_frame_no p)) div 8"
    by (simp only: unat_drop3)
  then have u: "unat (drop_bit 3 (slot_bit p f)) = unat (f - base_frame_no p) div 4"
    by simp
  have "map_byte p f = bitmap p + of_nat (unat (drop_bit 3 (slot_bit p f)))"
    by (simp add: map_byte_def)
  moreover from r have "4 * (unat (f - base_frame_no p) div 4) < unat (n_frames p)"
    by linarith
  ultimately show ?thesis
    using u by metis
qed

lemma well_formed_perform:
  assumes "well_formed p (ram m)" "pool_fits p"
    and "\<forall>q \<in> set (pools m). q \<noteq> p \<longrightarrow> apart p q"
  shows "well_formed p (ram (snd (perform p c m))) \<and> pools (snd (perform p c m)) = pools m"
proof (cases c)
  case (GetFrames n)
  from assms(1,2) have "well_formed p (snd (get_frames p n (ram m)))"
    by (rule well_formed_get_frames)
  with GetFrames show ?thesis
    by (simp add: split_beta)
next
  case (ReleaseFrames h)
  from assms have "well_formed p (ram (release_frames h m)) \<and> pools (release_frames h m) = pools m"
    by (rule well_formed_release_any)
  with ReleaseFrames show ?thesis
    by simp
qed

lemma well_formed_run_calls:
  assumes "well_formed p (ram m)" "pool_fits p"
    and "\<forall>q \<in> set (pools m). q \<noteq> p \<longrightarrow> apart p q"
  shows "well_formed p (ram (snd (run_calls p cs m)))"
  using assms
proof (induction cs arbitrary: m)
  case Nil
  from Nil.prems(1) show ?case by simp
next
  case (Cons c cs)
  from Cons.prems
  have step: "well_formed p (ram (snd (perform p c m))) \<and> pools (snd (perform p c m)) = pools m"
    by (rule well_formed_perform)
  then have reg: "\<forall>q \<in> set (pools (snd (perform p c m))). q \<noteq> p \<longrightarrow> apart p q"
    using Cons.prems(3) by (simp only:)
  from step have "well_formed p (ram (snd (perform p c m)))" by (rule conjunct1)
  then have "well_formed p (ram (snd (run_calls p cs (snd (perform p c m)))))"
    using Cons.prems(2) reg by (rule Cons.IH)
  then show ?case
    by (simp add: split_beta)
qed

lemma well_formed_all_free:
  assumes "\<forall>g. in_range p g \<longrightarrow> get_state p mem g = Free"
  shows "well_formed p mem"
  using assms by (simp add: well_formed_def)

lemma in_run_exists:
  assumes wf: "well_formed p mem"
  shows "in_range p g \<Longrightarrow> get_state p mem g \<noteq> Free \<Longrightarrow> \<exists>h. in_run p mem h g"
proof (induction "unat g" arbitrary: g rule: less_induct)
  case less
  from wf less.prems(1) have a: "get_state p mem g \<noteq> Unnamed"
    and b: "get_state p mem g = Used \<Longrightarrow>
        base_frame_no p < g \<and> get_state p mem (g - 1) \<in> {Used, HoS}"
    by (simp_all add: well_formed_def)
  show ?case
  proof (cases "get_state p mem g")
    case Free
    with less.prems(2) show ?thesis by simp
  next
    case Unnamed
    with a show ?thesis by simp
  next
    case HoS
    with less.prems(1) have "in_run p mem g g"
      by (auto simp: in_run_def released_def)
    then show ?thesis ..
  next
    case Used
    from b [OF Used] have bg: "base_frame_no p < g"
      and pr: "get_state p mem (g - 1) \<in> {Used, HoS}"
      by simp_all
    from bg less.prems(1) have g1: "in_range p (g - 1)"
      by (simp add: in_range_pred)
    from bg have "unat (g - 1) < unat g"
      by (simp add: unat_pred word_less_nat_alt)
    moreover from pr have "get_state p mem (g - 1) \<noteq> Free"
      by auto
    ultimately obtain h where "in_run p mem h (g - 1)"
      using less.hyps g1 by blast
    with Used bg have "in_run p mem h g"
      by (auto simp: in_run_def intro: released_succ)
    then show ?thesis ..
  qed
qed

lemma in_run_unique:
  assumes "in_run p mem h g" "in_run p mem h' g"
  shows "h = h'"
proof (rule ccontr)
  assume ne: "h \<noteq> h'"
  have False if "in_run p mem a g" "in_run p mem b g" "a < b" for a b
  proof -
    from that(2) have "get_state p mem b = HoS" "b \<le> g"
      by (simp_all add: in_run_def released_def)
    moreover from that(1,3) \<open>b \<le> g\<close> have "get_state p mem b = Used"
      by (simp add: in_run_def released_def)
    ultimately show False by simp
  qed
  from this [of h h'] this [of h' h] assms ne show False
    by (meson linorder_neqE)
qed

subsection \<open>The runs handed out\<close>

lemma window_offsets:
  assumes "\<forall>i<N. in_range p (s + of_nat i)" "i < N"
  shows "unat (s + of_nat i) = unat s + i"
  using assms(2)
proof (induction i)
  case 0
  show ?case by simp
next
  case (Suc i)
  then have IH: "unat (s + of_nat i) = unat s + i"
    by simp
  from Suc.prems assms(1) have "in_range p (s + of_nat i)"
    by simp
  then have "s + of_nat i < base_frame_no p + n_frames p"
    by (simp add: in_range_def)
  then have "unat (s + of_nat i + 1) = Suc (unat (s + of_nat i))"
    by (rule unat_succ_less)
  moreover have "s + of_nat (Suc i) = s + of_nat i + 1"
    by simp
  ultimately have "unat (s + of_nat (Suc i)) = Suc (unat (s + of_nat i))"
    by (simp only:)
  with IH show ?case
    by (simp only: add_Suc_right)
qed

lemma run_intact_frame:
  assumes "run_intact p mem f n" "i < unat n"
  shows "in_range p (f + of_nat i)"
    and "get_state p mem (f + of_nat i) = (if i = 0 then HoS else Used)"
    and "unat (f + of_nat i) = unat f + i"
proof -
  from assms(1) have all: "\<forall>i<unat n. in_range p (f + of_nat i) \<and>
        get_state p mem (f + of_nat i) = (if i = 0 then HoS else Used)"
    by (simp add: run_intact_def)
  with assms(2) show "in_range p (f + of_nat i)"
    and "get_state p mem (f + of_nat i) = (if i = 0 then HoS else Used)"
    by blast+
  from all have "\<forall>i<unat n. in_range p (f + of_nat i)" by blast
  then show "unat (f + of_nat i) = unat f + i"
    using assms(2) by (rule window_offsets)
qed

lemma run_intact_head:
  assumes "run_intact p mem f n"
  shows "in_range p f" and "get_state p mem f = HoS"
proof -
  from assms have "0 < unat n"
    by (simp add: run_intact_def unat_gt_0)
  from run_intact_frame(1,2) [OF assms this] show "in_range p f" and "get_state p mem f = HoS"
    by simp_all
qed

lemma run_intact_at:
  assumes "run_intact p mem f n" "unat f \<le> unat g" "unat g < unat f + unat n"
  shows "in_range p g" and "get_state p mem g = (if g = f then HoS else Used)"
proof -
  let ?i = "unat g - unat f"
  from assms(2,3) have i: "?i < unat n" by linarith
  from assms(2) have g: "f + of_nat ?i = g"
    by simp
  from run_intact_frame(1) [OF assms(1) i] show "in_range p g"
    by (simp only: g)
  have "?i = 0 \<longleftrightarrow> g = f"
    using assms(2) by (auto simp: word_unat_eq_iff)
  with run_intact_frame(2) [OF assms(1) i] show "get_state p mem g = (if g = f then HoS else Used)"
    by (simp only: g)
qed

lemma run_intact_same_states:
  assumes "run_intact p mem f n"
    and "\<And>g. in_range p g \<Longrightarrow> get_state p mem g \<noteq> Free \<Longrightarrow> get_state p mem' g = get_state p mem g"
  shows "run_intact p mem' f n"
  unfolding run_intact_def
proof (intro conjI allI impI)
  from assms(1) show "n \<noteq> 0" by (simp add: run_intact_def)
next
  fix i assume i: "i < unat n"
  note fr = run_intact_frame(1,2) [OF assms(1) i]
  from fr(2) have "get_state p mem (f + of_nat i) \<noteq> Free"
    by (simp split: if_splits)
  with fr(1) have "get_state p mem' (f + of_nat i) = get_state p mem (f + of_nat i)"
    by (rule assms(2))
  with fr show "in_range p (f + of_nat i)"
    and "get_state p mem' (f + of_nat i) = (if i = 0 then HoS else Used)"
    by simp_all
qed

lemma intact_get_frames:
  assumes fits: "pool_fits p" and dis: "distinct (map fst L)"
    and int: "\<forall>x \<in> set L. run_intact p (ram m) (fst x) (snd x)"
  shows "distinct (map fst (live_after p (GetFrames n) m L))
       \<and> (\<forall>x \<in> set (live_after p (GetFrames n) m L).
             run_intact p (snd (get_frames p n (ram m))) (fst x) (snd x))"
proof (cases "n = 0")
  case True
  with dis int show ?thesis by (simp add: get_frames_def)
next
  case n: False
  then have N: "unat n \<noteq> 0" by (simp add: unat_eq_0)
  let ?mem = "ram m"
  from get_frames_cases [OF n, of p ?mem] show ?thesis
  proof (elim disjE exE conjE)
    assume "get_frames p n ?mem = (0, ?mem)"
    with dis int show ?thesis by simp
  next
    fix s
    assume run: "free_run p ?mem s (unat n)"
      and res: "get_frames p n ?mem = (s, get_frames_mark p n s 1 (set_state p ?mem s HoS))"
    let ?mem' = "get_frames_mark p n s 1 (set_state p ?mem s HoS)"
    have post: "get_state p ?mem' g =
        (if unat s \<le> unat g \<and> unat g < unat s + unat n
         then if g = s then HoS else Used else get_state p ?mem g)" if "in_range p g" for g
      using fits that n run res by (rule get_frames_post)
    have keep: "get_state p ?mem' g = get_state p ?mem g"
      if g: "in_range p g" "get_state p ?mem g \<noteq> Free" for g
    proof -
      have "\<not> (unat s \<le> unat g \<and> unat g < unat s + unat n)"
      proof
        assume "unat s \<le> unat g \<and> unat g < unat s + unat n"
        with run have "get_state p ?mem g = Free"
          by (blast intro: free_run_frame)
        with g(2) show False ..
      qed
      then show ?thesis
        by (auto simp: post [OF g(1)])
    qed
    have old: "\<forall>x \<in> set L. run_intact p ?mem' (fst x) (snd x)"
    proof
      fix x assume "x \<in> set L"
      with int have "run_intact p ?mem (fst x) (snd x)" by blast
      then show "run_intact p ?mem' (fst x) (snd x)"
        using keep by (rule run_intact_same_states)
    qed
    from run N have "get_state p ?mem s = Free"
      by (intro free_run_frame [OF run]) simp_all
    have fresh: "s \<notin> fst ` set L"
    proof
      assume "s \<in> fst ` set L"
      then obtain x where x: "x \<in> set L" "fst x = s" by auto
      with int have "run_intact p ?mem s (snd x)" by auto
      then have "get_state p ?mem s = HoS" by (rule run_intact_head)
      with \<open>get_state p ?mem s = Free\<close> show False by simp
    qed
    have new: "run_intact p ?mem' s n"
      unfolding run_intact_def
    proof (intro conjI allI impI)
      show "n \<noteq> 0" by (rule n)
    next
      fix i assume i: "i < unat n"
      with run show r: "in_range p (s + of_nat i)"
        by (simp add: free_run_def)
      from run i have u: "unat (s + of_nat i) = unat s + i"
        by (rule free_run_offsets)
      then have "s + of_nat i = s \<longleftrightarrow> i = 0"
        by (metis add_cancel_right_right word_unat_eq_iff)
      with i u show "get_state p ?mem' (s + of_nat i) = (if i = 0 then HoS else Used)"
        by (simp add: post [OF r])
    qed
    from dis fresh old new res show ?thesis
      by (cases "s = 0") (simp_all add: Let_def)
  qed
qed

lemma pools_perform: "pools (snd (perform p c m)) = pools m"
proof (cases c)
  case (GetFrames n)
  then show ?thesis by (simp add: split_beta)
next
  case (ReleaseFrames h)
  from release_scan_cases [of "pools m" h m] have "pools (release_frames h m) = pools m"
    by (auto simp: release_frames_def)
  with ReleaseFrames show ?thesis by simp
qed

text \<open>The map of \<open>p\<close> after any \<open>release_frames(h)\<close>, whichever pool it is sent to.\<close>

lemma release_scan_dispatch:
  "(\<exists>line. release_scan ps h m = m\<lparr>console := console m @ [line]\<rparr>)
   \<or> (\<exists>q \<in> set ps. in_range q h \<and> get_state q (ram m) h = HoS \<and>
         release_scan ps h m =
           m\<lparr>ram := release_walk q (base_frame_no q + n_frames q) (h + 1)
                           (set_state q (ram m) h Free)\<rparr>)"
proof (induction ps)
  case Nil
  show ?case by (simp only: release_scan.simps(1)) blast
next
  case (Cons q ps)
  show ?case
  proof (cases "in_range q h")
    case False
    with Cons.IH show ?thesis
      by (simp only: release_scan_Cons if_False) auto
  next
    case True
    show ?thesis
    proof (cases "get_state q (ram m) h \<noteq> HoS")
      case ne: True
      with True have "release_scan (q # ps) h m =
          m\<lparr>console := console m @ [''Error: Frame is not Head-of-Sequence'' @ [CHR 0x0A]]\<rparr>"
        by (simp only: release_scan_Cons if_True simp_thms)
      then show ?thesis by blast
    next
      case False
      with True have "release_scan (q # ps) h m =
          m\<lparr>ram := release_walk q (base_frame_no q + n_frames q) (h + 1)
                          (set_state q (ram m) h Free)\<rparr>"
        by (simp only: release_scan_Cons if_True if_False simp_thms)
      with True False show ?thesis by auto
    qed
  qed
qed

lemma release_frames_states:
  assumes fits: "pool_fits p" and others: "\<forall>q \<in> set (pools m). q \<noteq> p \<longrightarrow> apart p q"
  shows "(\<forall>g. in_range p g \<longrightarrow> get_state p (ram (release_frames h m)) g = get_state p (ram m) g)
       \<or> (in_range p h \<and> get_state p (ram m) h = HoS \<and>
           (\<forall>g. in_range p g \<longrightarrow> get_state p (ram (release_frames h m)) g =
                (if released p (ram m) h g then Free else get_state p (ram m) g)))"
proof -
  from release_scan_dispatch [of "pools m" h m] show ?thesis
  proof (elim disjE exE bexE conjE)
    fix line
    assume "release_scan (pools m) h m = m\<lparr>console := console m @ [line]\<rparr>"
    then show ?thesis by (simp add: release_frames_def)
  next
    fix q
    assume q: "q \<in> set (pools m)" "in_range q h" "get_state q (ram m) h = HoS"
      and res: "release_scan (pools m) h m =
           m\<lparr>ram := release_walk q (base_frame_no q + n_frames q) (h + 1)
                           (set_state q (ram m) h Free)\<rparr>"
    let ?mem' = "release_walk q (base_frame_no q + n_frames q) (h + 1) (set_state q (ram m) h Free)"
    from res have ram: "ram (release_frames h m) = ?mem'"
      by (simp add: release_frames_def)
    show ?thesis
    proof (cases "q = p")
      case True
      with q fits have "\<forall>g. in_range p g \<longrightarrow> get_state p ?mem' g =
          (if released p (ram m) h g then Free else get_state p (ram m) g)"
        by (simp add: release_post)
      with True q show ?thesis
        unfolding ram by blast
    next
      case False
      with others q(1) have "apart p q" by blast
      then have "get_state p ?mem' g = get_state p (ram m) g" if "in_range p g" for g
        using q(2) that by (rule release_other_pool)
      then show ?thesis
        unfolding ram by blast
    qed
  qed
qed

lemma not_released_in_other_run:
  assumes int: "run_intact p mem f k" and head: "get_state p mem h = HoS" and ne: "f \<noteq> h"
    and g: "unat f \<le> unat g" "unat g < unat f + unat k"
  shows "\<not> released p mem h g"
proof
  assume rel: "released p mem h g"
  then have hg: "unat h \<le> unat g"
    and used: "\<And>x. h < x \<Longrightarrow> x \<le> g \<Longrightarrow> get_state p mem x = Used"
    by (simp_all add: released_def word_le_nat_alt)
  from ne have "unat f < unat h \<or> unat h < unat f"
    by (auto simp: word_unat_eq_iff)
  then show False
  proof
    assume "unat f < unat h"
    with hg g have "unat f \<le> unat h" "unat h < unat f + unat k" by linarith+
    with int have "get_state p mem h = (if h = f then HoS else Used)"
      by (rule run_intact_at)
    with ne head show False by simp
  next
    assume "unat h < unat f"
    with g(1) have "h < f" "f \<le> g"
      by (simp_all add: word_less_nat_alt word_le_nat_alt)
    then have "get_state p mem f = Used" by (rule used)
    moreover from int have "get_state p mem f = HoS" by (rule run_intact_head)
    ultimately show False by simp
  qed
qed

lemma intact_release_frames:
  assumes fits: "pool_fits p" and others: "\<forall>q \<in> set (pools m). q \<noteq> p \<longrightarrow> apart p q"
    and dis: "distinct (map fst L)"
    and int: "\<forall>x \<in> set L. run_intact p (ram m) (fst x) (snd x)"
  shows "distinct (map fst (live_after p (ReleaseFrames h) m L))
       \<and> (\<forall>x \<in> set (live_after p (ReleaseFrames h) m L).
             run_intact p (ram (release_frames h m)) (fst x) (snd x))"
proof -
  let ?mem' = "ram (release_frames h m)"
  have keep: "run_intact p ?mem' (fst x) (snd x)" if x: "x \<in> set L" "fst x \<noteq> h" for x
  proof -
    from int x(1) have ix: "run_intact p (ram m) (fst x) (snd x)" by blast
    from release_frames_states [OF fits others, of h] show ?thesis
    proof (elim disjE conjE)
      assume "\<forall>g. in_range p g \<longrightarrow> get_state p ?mem' g = get_state p (ram m) g"
      with ix show ?thesis
        by (intro run_intact_same_states [OF ix]) blast
    next
      assume head: "get_state p (ram m) h = HoS"
        and post: "\<forall>g. in_range p g \<longrightarrow> get_state p ?mem' g =
                (if released p (ram m) h g then Free else get_state p (ram m) g)"
      show ?thesis
        unfolding run_intact_def
      proof (intro conjI allI impI)
        from ix show "snd x \<noteq> 0" by (simp add: run_intact_def)
      next
        fix i assume i: "i < unat (snd x)"
        note fr = run_intact_frame [OF ix i]
        from fr(3) i have "unat (fst x) \<le> unat (fst x + of_nat i)"
          "unat (fst x + of_nat i) < unat (fst x) + unat (snd x)"
          by simp_all
        with ix head x(2) have "\<not> released p (ram m) h (fst x + of_nat i)"
          by (rule not_released_in_other_run)
        with post fr(1) have "get_state p ?mem' (fst x + of_nat i) =
            get_state p (ram m) (fst x + of_nat i)"
          by simp
        with fr(1,2) show "in_range p (fst x + of_nat i)"
          and "get_state p ?mem' (fst x + of_nat i) = (if i = 0 then HoS else Used)"
          by simp_all
      qed
    qed
  qed
  have "distinct (map fst (filter (\<lambda>x. fst x \<noteq> h) L))"
    using dis by (simp add: distinct_map_filter)
  moreover have "(\<lambda>(f, n). f \<noteq> h) = (\<lambda>x :: ulong \<times> uint. fst x \<noteq> h)"
    by (simp add: fun_eq_iff)
  ultimately show ?thesis
    using keep by simp
qed

lemma intact_perform:
  assumes "pool_fits p" and "\<forall>q \<in> set (pools m). q \<noteq> p \<longrightarrow> apart p q"
    and "distinct (map fst L)"
    and "\<forall>x \<in> set L. run_intact p (ram m) (fst x) (snd x)"
  shows "distinct (map fst (live_after p c m L))
       \<and> (\<forall>x \<in> set (live_after p c m L).
             run_intact p (ram (snd (perform p c m))) (fst x) (snd x))"
proof (cases c)
  case (GetFrames n)
  from intact_get_frames [OF assms(1,3,4), of n] GetFrames show ?thesis
    by (simp add: split_beta)
next
  case (ReleaseFrames h)
  from intact_release_frames [OF assms, of h] ReleaseFrames show ?thesis
    by simp
qed

lemma window_end:
  assumes "\<forall>i<unat n. in_range p (s + of_nat i)" "n \<noteq> 0"
  shows "unat (s + n) = unat s + unat n"
proof -
  from assms(2) have pos: "0 < unat n" by (simp add: unat_gt_0)
  let ?i = "unat n - 1"
  from pos have i: "?i < unat n" by simp
  with assms(1) have "in_range p (s + of_nat ?i)" by blast
  then have "s + of_nat ?i < base_frame_no p + n_frames p"
    by (simp add: in_range_def)
  then have "unat (s + of_nat ?i + 1) = Suc (unat (s + of_nat ?i))"
    by (rule unat_succ_less)
  moreover from assms(1) i have "unat (s + of_nat ?i) = unat s + ?i"
    by (rule window_offsets)
  moreover from pos have "of_nat ?i + 1 = n" by simp
  then have "s + of_nat ?i + 1 = s + n"
    by (simp only: add.assoc)
  ultimately show ?thesis
    using pos by simp
qed

lemma run_intact_end:
  assumes "run_intact p mem f n"
  shows "unat (f + n) = unat f + unat n"
proof -
  from assms have "\<forall>i<unat n. in_range p (f + of_nat i)" "n \<noteq> 0"
    by (simp_all add: run_intact_def)
  then show ?thesis by (rule window_end)
qed

lemma run_intact_released:
  assumes int: "run_intact p mem f n" and g: "unat f \<le> unat g" "unat g < unat f + unat n"
  shows "released p mem f g"
  unfolding released_def
proof (intro conjI allI impI)
  from g(1) show "f \<le> g" by (simp add: word_le_nat_alt)
next
  fix x assume "f < x \<and> x \<le> g"
  with g(2) have x: "unat f \<le> unat x" "unat x < unat f + unat n" "x \<noteq> f"
    by (auto simp: word_less_nat_alt word_le_nat_alt)
  from run_intact_at(2) [OF int x(1,2)] x(3) show "get_state p mem x = Used"
    by simp
qed

lemma covered_window:
  assumes "(f, n) \<in> set L" "unat f \<le> unat g" "unat g < unat f + unat n"
  shows "covered L g"
proof -
  let ?i = "unat g - unat f"
  from assms(2,3) have "?i < unat n" by linarith
  moreover from assms(2) have "g = f + of_nat ?i" by simp
  ultimately show ?thesis
    using assms(1) unfolding covered_def by blast
qed

lemma covered_get_frames:
  assumes fits: "pool_fits p" and zero: "\<not> in_range p 0"
    and cov: "\<forall>g. in_range p g \<and> get_state p (ram m) g \<noteq> Free \<longrightarrow> covered L g"
  shows "\<forall>g. in_range p g \<and> get_state p (snd (get_frames p n (ram m))) g \<noteq> Free \<longrightarrow>
           covered (live_after p (GetFrames n) m L) g"
proof (cases "n = 0")
  case True
  with cov show ?thesis by (simp add: get_frames_def)
next
  case n: False
  then have N: "unat n \<noteq> 0" by (simp add: unat_eq_0)
  let ?mem = "ram m"
  from get_frames_cases [OF n, of p ?mem] show ?thesis
  proof (elim disjE exE conjE)
    assume "get_frames p n ?mem = (0, ?mem)"
    with cov show ?thesis by simp
  next
    fix s
    assume run: "free_run p ?mem s (unat n)"
      and res: "get_frames p n ?mem = (s, get_frames_mark p n s 1 (set_state p ?mem s HoS))"
    let ?mem' = "get_frames_mark p n s 1 (set_state p ?mem s HoS)"
    from run N have "in_range p s" by (rule free_run_in_range)
    with zero have s: "s \<noteq> 0" by auto
    with res have live: "live_after p (GetFrames n) m L = (s, n) # L"
      by simp
    have "covered ((s, n) # L) g" if g: "in_range p g" "get_state p ?mem' g \<noteq> Free" for g
    proof (cases "unat s \<le> unat g \<and> unat g < unat s + unat n")
      case True
      then show ?thesis
        by (intro covered_window [of s n]) simp_all
    next
      case False
      with get_frames_post [OF fits g(1) n run res] have "get_state p ?mem' g = get_state p ?mem g"
        by simp
      with g cov have "covered L g" by simp
      then show ?thesis by (auto simp: covered_def)
    qed
    with res show ?thesis
      unfolding live by simp
  qed
qed

lemma covered_release_frames:
  assumes fits: "pool_fits p" and others: "\<forall>q \<in> set (pools m). q \<noteq> p \<longrightarrow> apart p q"
    and reg: "p \<in> set (pools m)"
    and own: "\<forall>q \<in> set (pools m). q \<noteq> p \<longrightarrow> (\<forall>g. in_range p g \<longrightarrow> \<not> in_range q g)"
    and int: "\<forall>x \<in> set L. run_intact p (ram m) (fst x) (snd x)"
    and cov: "\<forall>g. in_range p g \<and> get_state p (ram m) g \<noteq> Free \<longrightarrow> covered L g"
  shows "\<forall>g. in_range p g \<and> get_state p (ram (release_frames h m)) g \<noteq> Free \<longrightarrow>
           covered (live_after p (ReleaseFrames h) m L) g"
proof (intro allI impI)
  fix g
  let ?mem' = "ram (release_frames h m)"
  assume "in_range p g \<and> get_state p ?mem' g \<noteq> Free"
  then have g: "in_range p g" "get_state p ?mem' g \<noteq> Free" by simp_all
  have "get_state p (ram m) g \<noteq> Free"
    using release_frames_states [OF fits others, of h] g by (auto split: if_splits)
  with cov g(1) have "covered L g" by simp
  then obtain f k i where x: "(f, k) \<in> set L" "i < unat k" "g = f + of_nat i"
    by (auto simp: covered_def)
  from int x(1) have ix: "run_intact p (ram m) f k" by auto
  have "f \<noteq> h"
  proof
    assume fh: "f = h"
    from ix have h: "in_range p h" "get_state p (ram m) h = HoS"
      unfolding fh by (rule run_intact_head)+
    have "\<forall>q \<in> set (pools m). in_range q h \<longrightarrow> q = p"
      using own h(1) by blast
    with reg h have "release_frames h m =
        m\<lparr>ram := release_walk p (base_frame_no p + n_frames p) (h + 1) (set_state p (ram m) h Free)\<rparr>"
      by (rule release_frames_owner)
    then have "get_state p ?mem' g = (if released p (ram m) h g then Free else get_state p (ram m) g)"
      using release_post [OF fits h(1) g(1)] by simp
    moreover from run_intact_frame(3) [OF ix x(2)] x(2,3)
    have "unat f \<le> unat g" "unat g < unat f + unat k"
      by simp_all
    with ix have "released p (ram m) f g" by (rule run_intact_released)
    ultimately show False
      using g(2) fh by simp
  qed
  with x have "\<exists>(f, n) \<in> set (filter (\<lambda>(f, n). f \<noteq> h) L). \<exists>i<unat n. g = f + of_nat i"
    by auto
  then show "covered (live_after p (ReleaseFrames h) m L) g"
    by (simp add: covered_def)
qed

text \<open>The frame right after a run handed out is never Used: the run ends where it was cut.\<close>

lemma boundary_get_frames:
  assumes fits: "pool_fits p" and wf: "well_formed p (ram m)"
    and int: "\<forall>x \<in> set L. run_intact p (ram m) (fst x) (snd x)"
    and bd: "\<forall>x \<in> set L. in_range p (fst x + snd x) \<longrightarrow>
               get_state p (ram m) (fst x + snd x) \<noteq> Used"
  shows "\<forall>x \<in> set (live_after p (GetFrames n) m L). in_range p (fst x + snd x) \<longrightarrow>
           get_state p (snd (get_frames p n (ram m))) (fst x + snd x) \<noteq> Used"
proof (cases "n = 0")
  case True
  with bd show ?thesis by (simp add: get_frames_def)
next
  case n: False
  then have N: "unat n \<noteq> 0" by (simp add: unat_eq_0)
  let ?mem = "ram m"
  from get_frames_cases [OF n, of p ?mem] show ?thesis
  proof (elim disjE exE conjE)
    assume "get_frames p n ?mem = (0, ?mem)"
    with bd show ?thesis by simp
  next
    fix s
    assume run: "free_run p ?mem s (unat n)"
      and res: "get_frames p n ?mem = (s, get_frames_mark p n s 1 (set_state p ?mem s HoS))"
    let ?mem' = "get_frames_mark p n s 1 (set_state p ?mem s HoS)"
    note post = get_frames_post [OF fits _ n run res]
    have old: "get_state p ?mem' (fst x + snd x) \<noteq> Used"
      if x: "x \<in> set L" "in_range p (fst x + snd x)" for x
    proof -
      let ?g = "fst x + snd x"
      from int x(1) have ix: "run_intact p ?mem (fst x) (snd x)" by blast
      then have e: "unat ?g = unat (fst x) + unat (snd x)" by (rule run_intact_end)
      from ix have k: "0 < unat (snd x)"
        by (simp add: run_intact_def unat_gt_0)
      show ?thesis
      proof (cases "unat s \<le> unat ?g \<and> unat ?g < unat s + unat n")
        case False
        with post [OF x(2)] have "get_state p ?mem' ?g = get_state p ?mem ?g" by simp
        with bd x show ?thesis by simp
      next
        case True
        show ?thesis
        proof (cases "?g = s")
          case True
          with post [OF x(2)] \<open>unat s \<le> unat ?g \<and> unat ?g < unat s + unat n\<close>
          show ?thesis by simp
        next
          case False
          with True have lt: "unat s < unat ?g"
            by (auto simp: word_unat_eq_iff)
          let ?i = "unat (snd x) - 1"
          from k have i: "?i < unat (snd x)" by simp
          note fr = run_intact_frame [OF ix i]
          from fr(3) lt True e k have "unat s \<le> unat (fst x + of_nat ?i)"
            "unat (fst x + of_nat ?i) < unat s + unat n"
            by linarith+
          with run have "get_state p ?mem (fst x + of_nat ?i) = Free"
            by (rule free_run_frame)
          with fr(2) show ?thesis
            by (simp split: if_splits)
        qed
      qed
    qed
    have new: "get_state p ?mem' (s + n) \<noteq> Used" if r: "in_range p (s + n)"
    proof -
      from run have w: "\<forall>i<unat n. in_range p (s + of_nat i)"
        by (simp add: free_run_def)
      then have e: "unat (s + n) = unat s + unat n"
        using n by (rule window_end)
      with post [OF r] have same: "get_state p ?mem' (s + n) = get_state p ?mem (s + n)"
        by simp
      have "get_state p ?mem (s + n) \<noteq> Used"
      proof
        assume u: "get_state p ?mem (s + n) = Used"
        with wf r have b: "base_frame_no p < s + n"
          and pre: "get_state p ?mem (s + n - 1) \<in> {Used, HoS}"
          by (simp_all add: well_formed_def)
        from b have "unat (s + n - 1) = unat (s + n) - 1" by (rule unat_pred)
        with e N have "unat s \<le> unat (s + n - 1)" "unat (s + n - 1) < unat s + unat n"
          by linarith+
        with run have "get_state p ?mem (s + n - 1) = Free"
          by (rule free_run_frame)
        with pre show False by simp
      qed
      with same show ?thesis by simp
    qed
    from old new res show ?thesis
      by (cases "s = 0") (simp_all add: Let_def)
  qed
qed

lemma boundary_release_frames:
  assumes fits: "pool_fits p" and others: "\<forall>q \<in> set (pools m). q \<noteq> p \<longrightarrow> apart p q"
    and bd: "\<forall>x \<in> set L. in_range p (fst x + snd x) \<longrightarrow>
               get_state p (ram m) (fst x + snd x) \<noteq> Used"
  shows "\<forall>x \<in> set (live_after p (ReleaseFrames h) m L). in_range p (fst x + snd x) \<longrightarrow>
           get_state p (ram (release_frames h m)) (fst x + snd x) \<noteq> Used"
proof (intro ballI impI)
  fix x
  assume "x \<in> set (live_after p (ReleaseFrames h) m L)" and r: "in_range p (fst x + snd x)"
  then have "x \<in> set L" by simp
  with bd r have "get_state p (ram m) (fst x + snd x) \<noteq> Used" by blast
  with release_frames_states [OF fits others, of h] r
  show "get_state p (ram (release_frames h m)) (fst x + snd x) \<noteq> Used"
    by (auto split: if_splits)
qed

text \<open>A property of the machine and of the runs handed out that every call keeps.\<close>

lemma live_runs_invariant:
  assumes "I m L" and "\<And>c m L. I m L \<Longrightarrow> I (snd (perform p c m)) (live_after p c m L)"
  shows "I (snd (run_calls p cs m)) (live_runs p cs m L)"
  using assms(1)
proof (induction cs arbitrary: m L)
  case Nil
  then show ?case by simp
next
  case (Cons c cs)
  from Cons.prems have "I (snd (perform p c m)) (live_after p c m L)"
    by (rule assms(2))
  then have "I (snd (run_calls p cs (snd (perform p c m))))
      (live_runs p cs (snd (perform p c m)) (live_after p c m L))"
    by (rule Cons.IH)
  then show ?case
    by (simp add: split_beta)
qed

lemma live_runs_intact:
  assumes fits: "pool_fits p" and others: "\<forall>q \<in> set (pools m). q \<noteq> p \<longrightarrow> apart p q"
    and wf: "well_formed p (ram m)"
  shows "distinct (map fst (live_runs p cs m []))
       \<and> (\<forall>x \<in> set (live_runs p cs m []). run_intact p (ram (snd (run_calls p cs m))) (fst x) (snd x))
       \<and> (\<forall>x \<in> set (live_runs p cs m []). in_range p (fst x + snd x) \<longrightarrow>
             get_state p (ram (snd (run_calls p cs m))) (fst x + snd x) \<noteq> Used)"
proof -
  let ?I = "\<lambda>(m :: machine) (L :: (ulong \<times> uint) list). (\<forall>q \<in> set (pools m). q \<noteq> p \<longrightarrow> apart p q) \<and> well_formed p (ram m)
      \<and> distinct (map fst L)
      \<and> (\<forall>x \<in> set L. run_intact p (ram m) (fst x) (snd x))
      \<and> (\<forall>x \<in> set L. in_range p (fst x + snd x) \<longrightarrow>
             get_state p (ram m) (fst x + snd x) \<noteq> Used)"
  have "?I (snd (run_calls p cs m)) (live_runs p cs m [])"
  proof (rule live_runs_invariant [where I = ?I])
    from others wf show "?I m []" by simp
  next
    fix c m L
    assume I: "?I m L"
    then have o: "\<forall>q \<in> set (pools m). q \<noteq> p \<longrightarrow> apart p q" and w: "well_formed p (ram m)"
      and d: "distinct (map fst L)"
      and i: "\<forall>x \<in> set L. run_intact p (ram m) (fst x) (snd x)"
      and b: "\<forall>x \<in> set L. in_range p (fst x + snd x) \<longrightarrow>
             get_state p (ram m) (fst x + snd x) \<noteq> Used"
      by blast+
    note wp = well_formed_perform [OF w fits o, of c]
    note ip = intact_perform [OF fits o d i, of c]
    have "\<forall>x \<in> set (live_after p c m L). in_range p (fst x + snd x) \<longrightarrow>
        get_state p (ram (snd (perform p c m))) (fst x + snd x) \<noteq> Used"
    proof (cases c)
      case (GetFrames n)
      from boundary_get_frames [OF fits w i b, of n] GetFrames show ?thesis
        by (simp add: split_beta)
    next
      case (ReleaseFrames h)
      from boundary_release_frames [OF fits o b, of h] ReleaseFrames show ?thesis
        by simp
    qed
    with wp ip o show "?I (snd (perform p c m)) (live_after p c m L)"
      by simp
  qed
  then show ?thesis by blast
qed

lemma live_runs_covered:
  assumes fits: "pool_fits p" and others: "\<forall>q \<in> set (pools m). q \<noteq> p \<longrightarrow> apart p q"
    and reg: "p \<in> set (pools m)" and zero: "\<not> in_range p 0"
    and own: "\<forall>q \<in> set (pools m). q \<noteq> p \<longrightarrow> (\<forall>g. in_range p g \<longrightarrow> \<not> in_range q g)"
    and free: "\<forall>g. in_range p g \<longrightarrow> get_state p (ram m) g = Free"
  shows "\<forall>g. in_range p g \<and> get_state p (ram (snd (run_calls p cs m))) g \<noteq> Free \<longrightarrow>
           covered (live_runs p cs m []) g"
proof -
  let ?I = "\<lambda>(m :: machine) (L :: (ulong \<times> uint) list). (\<forall>q \<in> set (pools m). q \<noteq> p \<longrightarrow> apart p q) \<and> p \<in> set (pools m)
      \<and> (\<forall>q \<in> set (pools m). q \<noteq> p \<longrightarrow> (\<forall>g. in_range p g \<longrightarrow> \<not> in_range q g))
      \<and> distinct (map fst L)
      \<and> (\<forall>x \<in> set L. run_intact p (ram m) (fst x) (snd x))
      \<and> (\<forall>g. in_range p g \<and> get_state p (ram m) g \<noteq> Free \<longrightarrow> covered L g)"
  have "?I (snd (run_calls p cs m)) (live_runs p cs m [])"
  proof (rule live_runs_invariant [where I = ?I])
    from free have "\<forall>g. in_range p g \<and> get_state p (ram m) g \<noteq> Free \<longrightarrow> covered [] g"
      by blast
    with others reg own show "?I m []" by simp
  next
    fix c m L
    assume I: "?I m L"
    then have o: "\<forall>q \<in> set (pools m). q \<noteq> p \<longrightarrow> apart p q" and r: "p \<in> set (pools m)"
      and w: "\<forall>q \<in> set (pools m). q \<noteq> p \<longrightarrow> (\<forall>g. in_range p g \<longrightarrow> \<not> in_range q g)"
      and d: "distinct (map fst L)"
      and i: "\<forall>x \<in> set L. run_intact p (ram m) (fst x) (snd x)"
      and c: "\<forall>g. in_range p g \<and> get_state p (ram m) g \<noteq> Free \<longrightarrow> covered L g"
      by blast+
    note ip = intact_perform [OF fits o d i, of c]
    have ps: "pools (snd (perform p c m)) = pools m" by (rule pools_perform)
    have "\<forall>g. in_range p g \<and> get_state p (ram (snd (perform p c m))) g \<noteq> Free \<longrightarrow>
        covered (live_after p c m L) g"
    proof (cases c)
      case (GetFrames n)
      from covered_get_frames [OF fits zero c, of n] GetFrames show ?thesis
        by (simp add: split_beta)
    next
      case (ReleaseFrames h)
      from covered_release_frames [OF fits o r w i c, of h] ReleaseFrames show ?thesis
        by simp
    qed
    with ip o r w show "?I (snd (perform p c m)) (live_after p c m L)"
      unfolding ps by simp
  qed
  then show ?thesis by blast
qed

text \<open>Two runs with different heads share no frame; the run of a head is the run handed out.\<close>

lemma intact_runs_disjoint:
  assumes x: "run_intact p mem f k" and y: "run_intact p mem f' k'" and ne: "f \<noteq> f'"
    and i: "i < unat k" and j: "j < unat k'"
  shows "f + of_nat i \<noteq> f' + of_nat j"
proof
  assume eq: "f + of_nat i = f' + of_nat j"
  note a = run_intact_frame(3) [OF x i]
  note b = run_intact_frame(3) [OF y j]
  from a b eq have sum: "unat f + i = unat f' + j" by simp
  from ne have "unat f < unat f' \<or> unat f' < unat f"
    by (auto simp: word_unat_eq_iff)
  then show False
  proof
    assume "unat f < unat f'"
    with sum i have "unat f \<le> unat f'" "unat f' < unat f + unat k" by linarith+
    from run_intact_at(2) [OF x this] ne have "get_state p mem f' = Used" by simp
    with run_intact_head(2) [OF y] show False by simp
  next
    assume "unat f' < unat f"
    with sum j have "unat f' \<le> unat f" "unat f < unat f' + unat k'" by linarith+
    from run_intact_at(2) [OF y this] ne have "get_state p mem f = Used" by simp
    with run_intact_head(2) [OF x] show False by simp
  qed
qed

lemma intact_run_extent:
  assumes int: "run_intact p mem f n"
    and bd: "in_range p (f + n) \<longrightarrow> get_state p mem (f + n) \<noteq> Used"
    and g: "in_range p g"
  shows "in_run p mem f g \<longleftrightarrow> unat f \<le> unat g \<and> unat g < unat f + unat n"
proof
  assume "unat f \<le> unat g \<and> unat g < unat f + unat n"
  then have "unat f \<le> unat g" "unat g < unat f + unat n" by blast+
  with int have "released p mem f g"
    by (rule run_intact_released)
  with run_intact_head [OF int] show "in_run p mem f g"
    by (simp add: in_run_def)
next
  assume r: "in_run p mem f g"
  then have fg: "f \<le> g" and used: "\<And>x. f < x \<Longrightarrow> x \<le> g \<Longrightarrow> get_state p mem x = Used"
    by (simp_all add: in_run_def released_def)
  note e = run_intact_end [OF int]
  from int have k: "0 < unat n" by (simp add: run_intact_def unat_gt_0)
  have "unat g < unat f + unat n"
  proof (rule ccontr)
    assume "\<not> unat g < unat f + unat n"
    with e have le: "unat (f + n) \<le> unat g" by simp
    with e k have x: "f < f + n" "f + n \<le> g"
      by (simp_all add: word_less_nat_alt word_le_nat_alt)
    then have u: "get_state p mem (f + n) = Used" by (rule used)
    from run_intact_head(1) [OF int] x g have "in_range p (f + n)"
      unfolding in_range_def by unat_arith
    with bd u show False by simp
  qed
  with fg show "unat f \<le> unat g \<and> unat g < unat f + unat n"
    by (simp add: word_le_nat_alt)
qed

subsection \<open>From the constructor on\<close>

lemma new_init:
  assumes "ContFramePool_new FRAME_SIZE base count info m0 = Inr (p, m1)"
  shows "ContFramePool_init FRAME_SIZE base count info (ram m0) = (p, ram m1)"
    and "pools m1 = pools m0 @ [p]"
  using assms by (auto simp: ContFramePool_new_def Let_def split: prod.splits if_splits)

text \<open>
  Claim C1. Take a pool fresh from the constructor and let a client make any sequence of
  \<open>get_frames\<close> calls on it and of \<open>release_frames\<close> calls. The allocated runs are
  the runs these \<open>get_frames\<close> calls handed out, \<open>n\<close> frames from the frame returned,
  that the client has not passed back to \<open>release_frames\<close>. Afterwards no two of them
  have the same first frame, and each of them is intact in the map: all its frames lie in
  the usable range, its first frame reads HoS and each of the other \<open>n - 1\<close> frames
  reads Used, so no Free frame lies inside it. Reading the map alone gives the same run:
  the frames of the usable range that follow the head \<open>f\<close> through an unbroken stretch
  of Used frames are exactly the \<open>n\<close> frames handed out. Two allocated runs share no
  frame. Every frame of the usable range that is not Free has exactly one HoS frame at or
  below it with only Used frames in between. When the usable range does not hold frame 0
  and shares no frame with the range of a pool registered before, every frame that is
  not Free is a frame of an allocated run. The size of the map must be computable
  without overflow, \<open>FRAME_SIZE\<close> must not be zero, and the pools registered before
  keep their maps apart from the map of the new pool.
\<close>

theorem run_integrity:
  assumes "FRAME_SIZE \<noteq> 0" and "2 * unat count + 7 < 2 ^ 32"
    and "ContFramePool_new FRAME_SIZE base count info m0 = Inr (p, m1)"
    and "\<forall>q \<in> set (pools m0). q \<noteq> p \<longrightarrow> apart p q"
  shows "distinct (map fst (live_runs p cs m1 []))
     \<and> (\<forall>(f, n) \<in> set (live_runs p cs m1 []).
           run_intact p (ram (snd (run_calls p cs m1))) f n)
     \<and> (\<forall>(f, n) \<in> set (live_runs p cs m1 []). \<forall>g. in_range p g \<longrightarrow>
           (in_run p (ram (snd (run_calls p cs m1))) f g \<longleftrightarrow>
              unat f \<le> unat g \<and> unat g < unat f + unat n))
     \<and> (\<forall>(f, n) \<in> set (live_runs p cs m1 []). \<forall>(f', n') \<in> set (live_runs p cs m1 []).
           f \<noteq> f' \<longrightarrow> (\<forall>i<unat n. \<forall>j<unat n'. f + of_nat i \<noteq> f' + of_nat j))
     \<and> (\<forall>g. in_range p g \<and> get_state p (ram (snd (run_calls p cs m1))) g \<noteq> Free \<longrightarrow>
           (\<exists>!h. in_run p (ram (snd (run_calls p cs m1))) h g))
     \<and> (\<not> in_range p 0 \<and> (\<forall>q \<in> set (pools m0). q \<noteq> p \<longrightarrow> disjoint_ranges p q) \<longrightarrow>
           (\<forall>g. in_range p g \<and> get_state p (ram (snd (run_calls p cs m1))) g \<noteq> Free \<longrightarrow>
              covered (live_runs p cs m1 []) g))"
proof -
  let ?mem = "ram (snd (run_calls p cs m1))"
  let ?L = "live_runs p cs m1 []"
  note init = new_init(1) [OF assms(3)]
  have ps: "pools m1 = pools m0 @ [p]"
    using assms(3) by (rule new_init(2))
  then have set: "set (pools m1) = insert p (set (pools m0))"
    by simp
  then have reg: "\<forall>q \<in> set (pools m1). q \<noteq> p \<longrightarrow> apart p q"
    using assms(4) by blast
  have "unat (n_frames p) \<le> unat count"
    using init assms(1,2) by (rule init_count)
  with assms(2) have fits: "pool_fits p"
    by (simp add: pool_fits_def)
  have free: "\<forall>g. in_range p g \<longrightarrow> get_state p (ram m1) g = Free"
    using init_usable_free [OF init assms(1,2)] by blast
  then have wf1: "well_formed p (ram m1)"
    by (rule well_formed_all_free)
  then have wf: "well_formed p ?mem"
    using fits reg by (rule well_formed_run_calls)
  from live_runs_intact [OF fits reg wf1, of cs]
  have dis: "distinct (map fst ?L)"
    and int: "\<And>x. x \<in> set ?L \<Longrightarrow> run_intact p ?mem (fst x) (snd x)"
    and bd: "\<And>x. x \<in> set ?L \<Longrightarrow> in_range p (fst x + snd x) \<longrightarrow>
               get_state p ?mem (fst x + snd x) \<noteq> Used"
    by blast+
  have a: "\<forall>(f, n) \<in> set ?L. run_intact p ?mem f n"
    using int by (auto simp: split_beta)
  have b: "\<forall>(f, n) \<in> set ?L. \<forall>g. in_range p g \<longrightarrow>
      (in_run p ?mem f g \<longleftrightarrow> unat f \<le> unat g \<and> unat g < unat f + unat n)"
  proof (intro ballI, unfold split_beta, intro allI impI)
    fix x g assume "x \<in> set ?L" "in_range p g"
    with int bd show "in_run p ?mem (fst x) g \<longleftrightarrow>
        unat (fst x) \<le> unat g \<and> unat g < unat (fst x) + unat (snd x)"
      by (intro intact_run_extent) blast+
  qed
  have c: "\<forall>(f, n) \<in> set ?L. \<forall>(f', n') \<in> set ?L.
      f \<noteq> f' \<longrightarrow> (\<forall>i<unat n. \<forall>j<unat n'. f + of_nat i \<noteq> f' + of_nat j)"
  proof (unfold split_beta, intro ballI allI impI)
    fix x y i j
    assume "x \<in> set ?L" "y \<in> set ?L" "fst x \<noteq> fst y" "i < unat (snd x)" "j < unat (snd y)"
    with int show "fst x + of_nat i \<noteq> fst y + of_nat j"
      by (intro intact_runs_disjoint) blast+
  qed
  have d: "\<forall>g. in_range p g \<and> get_state p ?mem g \<noteq> Free \<longrightarrow> (\<exists>!h. in_run p ?mem h g)"
  proof (intro allI impI)
    fix g
    assume "in_range p g \<and> get_state p ?mem g \<noteq> Free"
    then have "\<exists>h. in_run p ?mem h g"
      using in_run_exists [OF wf] by blast
    then show "\<exists>!h. in_run p ?mem h g"
      using in_run_unique by blast
  qed
  have e: "\<forall>g. in_range p g \<and> get_state p ?mem g \<noteq> Free \<longrightarrow> covered ?L g"
    if zero: "\<not> in_range p 0" and own0: "\<forall>q \<in> set (pools m0). q \<noteq> p \<longrightarrow> disjoint_ranges p q"
  proof -
    from set have mem: "p \<in> set (pools m1)" by simp
    from own0 set
    have own: "\<forall>q \<in> set (pools m1). q \<noteq> p \<longrightarrow> (\<forall>g. in_range p g \<longrightarrow> \<not> in_range q g)"
      unfolding disjoint_ranges_def by blast
    from fits reg mem zero own free show ?thesis
      by (rule live_runs_covered)
  qed
  from dis a b c d e show ?thesis
    by blast
qed

theorem run_integrity_witness:
  "(4096 :: ulong) \<noteq> 0 \<and> 2 * unat (8 :: ulong) + 7 < 2 ^ 32 \<and>
   (case ContFramePool_new 4096 8 8 0
           \<lparr>ram = (\<lambda>_. 255)(4096 := 6),
            pools = [\<lparr>base_frame_no = 100, n_frames = 4, info_frame_no = 1, bitmap = 4096,
                      bitmap_size = 1\<rparr>],
            console = []\<rparr> of
      Inl e \<Rightarrow> False
    | Inr (p, m1) \<Rightarrow>
        apart p \<lparr>base_frame_no = 100, n_frames = 4, info_frame_no = 1, bitmap = 4096,
                 bitmap_size = 1\<rparr> \<and>
        disjoint_ranges p \<lparr>base_frame_no = 100, n_frames = 4, info_frame_no = 1, bitmap = 4096,
                 bitmap_size = 1\<rparr> \<and>
        \<not> in_range p 0 \<and> in_range p 13 \<and> in_range p 14 \<and>
        live_runs p [GetFrames 3, ReleaseFrames 100, GetFrames 2, ReleaseFrames 9, GetFrames 1]
            m1 [] = [(9, 1), (12, 2)] \<and>
        map (get_state p (ram (snd (run_calls p
               [GetFrames 3, ReleaseFrames 100, GetFrames 2, ReleaseFrames 9, GetFrames 1] m1))))
            [9, 10, 11, 12, 13, 14, 15]
          = [HoS, Free, Free, HoS, Used, Free, Free] \<and>
        run_intact p (ram (snd (run_calls p
               [GetFrames 3, ReleaseFrames 100, GetFrames 2, ReleaseFrames 9, GetFrames 1] m1)))
            12 2 \<and>
        in_run p (ram (snd (run_calls p
               [GetFrames 3, ReleaseFrames 100, GetFrames 2, ReleaseFrames 9, GetFrames 1] m1)))
            12 13 \<and>
        \<not> in_run p (ram (snd (run_calls p
               [GetFrames 3, ReleaseFrames 100, GetFrames 2, ReleaseFrames 9, GetFrames 1] m1)))
            12 14 \<and>
        (\<exists>!h. in_run p (ram (snd (run_calls p
               [GetFrames 3, ReleaseFrames 100, GetFrames 2, ReleaseFrames 9, GetFrames 1] m1))) h 13) \<and>
        covered (live_runs p
               [GetFrames 3, ReleaseFrames 100, GetFrames 2, ReleaseFrames 9, GetFrames 1] m1 [])
            13)"
proof -
  let ?Q = "\<lparr>base_frame_no = 100, n_frames = 4, info_frame_no = 1, bitmap = 4096,
      bitmap_size = 1\<rparr> :: ContFramePool"
  let ?ram0 = "(\<lambda>_. 255)(4096 := 6) :: memory"
  let ?m0 = "\<lparr>ram = ?ram0, pools = [?Q], console = []\<rparr> :: machine"
  let ?cs = "[GetFrames 3, ReleaseFrames 100, GetFrames 2, ReleaseFrames 9, GetFrames 1]"
  obtain p m1 where new: "ContFramePool_new 4096 8 8 0 ?m0 = Inr (p, m1)"
    by (cases "ContFramePool_init 4096 8 8 0 ?ram0") (simp add: ContFramePool_new_def)
  have fs: "(4096 :: ulong) \<noteq> 0" by simp
  have sz: "2 * unat (8 :: ulong) + 7 < 2 ^ 32" by simp
  from new have p: "p = \<lparr>base_frame_no = 9, n_frames = 7, info_frame_no = 0, bitmap = 32768,
      bitmap_size = 2\<rparr>"
    by (auto simp: ContFramePool_new_def ContFramePool_init_def needed_info_frames_def Let_def)
  from new have m1: "m1 = \<lparr>ram = snd (ContFramePool_init 4096 8 8 0 ?ram0), pools = [?Q, p],
      console = [''Contiguous Frame Pool initialized'' @ [CHR 0x0A]]\<rparr>"
    by (auto simp: ContFramePool_new_def split: prod.splits)
  have ap: "apart p ?Q"
    unfolding apart_def
  proof (intro allI impI)
    fix f g assume a: "in_range p f \<and> in_range ?Q g"
    have "pool_fits p" "pool_fits ?Q"
      by (simp_all add: p pool_fits_def)
    with a obtain i j where i: "4 * i < unat (n_frames p)" "map_byte p f = bitmap p + of_nat i"
      and j: "4 * j < unat (n_frames ?Q)" "map_byte ?Q g = bitmap ?Q + of_nat j"
      using map_byte_offset by blast
    from i(1) have "i = 0 \<or> i = 1" by (auto simp: p)
    moreover from j(1) have "j = 0" by simp
    ultimately show "map_byte p f \<noteq> map_byte ?Q g"
      using i(2) j(2) by (auto simp: p)
  qed
  then have others: "\<forall>q \<in> set (pools ?m0). q \<noteq> p \<longrightarrow> apart p q"
    by simp
  have dj: "disjoint_ranges p ?Q"
    unfolding disjoint_ranges_def in_range_def p by simp unat_arith
  then have own: "\<forall>q \<in> set (pools ?m0). q \<noteq> p \<longrightarrow> disjoint_ranges p q"
    by simp
  have r: "\<not> in_range p 0" "in_range p 13" "in_range p 14"
    by (simp_all add: p in_range_def)
  define mem where "mem = ram (snd (run_calls p ?cs m1))"
  have st: "map (get_state p mem) [9, 10, 11, 12, 13, 14, 15]
      = [HoS, Free, Free, HoS, Used, Free, Free]"
    unfolding mem_def m1 unfolding p
    by (simp add: ContFramePool_init_def needed_info_frames_def ctor_mark.simps ctor_zero.simps
        get_frames_def get_frames_scan.simps get_frames_mark.simps release_frames_def
        release_walk.simps get_state_def set_state_def Let_def state_code_def state_of_code_def)
  have live: "live_runs p ?cs m1 [] = [(9, 1), (12, 2)]"
    unfolding m1 unfolding p
    by (simp add: ContFramePool_init_def needed_info_frames_def ctor_mark.simps ctor_zero.simps
        get_frames_def get_frames_scan.simps get_frames_mark.simps release_frames_def
        release_walk.simps get_state_def set_state_def Let_def state_code_def state_of_code_def)
  note concl = run_integrity [OF fs sz new others, of ?cs, folded mem_def, unfolded live]
  from concl have i12: "run_intact p mem 12 2"
    by simp
  from concl r(2,3) have x13: "in_run p mem 12 13" and x14: "\<not> in_run p mem 12 14"
    by simp_all
  from st have "get_state p mem 13 \<noteq> Free"
    by simp
  with concl r(2) have u13: "\<exists>!h. in_run p mem h 13"
    by blast
  from concl r(1,2) own \<open>get_state p mem 13 \<noteq> Free\<close> have c13: "covered [(9, 1), (12, 2)] 13"
    by blast
  from ap dj r st live i12 x13 x14 u13 c13 show ?thesis
    unfolding mem_def by (simp add: new)
qed

subsection \<open>What get\_frames can return\<close>

lemma get_frames_result_in_range:
  assumes "fst (get_frames p n_req mem) \<noteq> 0"
  shows "in_range p (fst (get_frames p n_req mem))"
proof -
  from assms have n: "n_req \<noteq> 0"
    by (auto simp: get_frames_def)
  then have "unat n_req \<noteq> 0" by (simp add: unat_eq_0)
  with get_frames_cases [OF n, of p mem] assms show ?thesis
    by (auto intro: free_run_in_range)
qed

lemma run_calls_results_in_range:
  assumes "r \<in> set (fst (run_calls p cs m))" "r \<noteq> 0"
  shows "in_range p r"
  using assms
proof (induction cs arbitrary: m)
  case Nil
  then show ?case by simp
next
  case (Cons c cs)
  from Cons.prems(1) have "r \<in> set (fst (perform p c m)) \<or>
      r \<in> set (fst (run_calls p cs (snd (perform p c m))))"
    by (simp add: split_beta)
  then show ?case
  proof
    assume "r \<in> set (fst (run_calls p cs (snd (perform p c m))))"
    then show ?thesis using Cons.prems(2) by (rule Cons.IH)
  next
    assume a: "r \<in> set (fst (perform p c m))"
    show ?thesis
    proof (cases c)
      case (GetFrames n)
      with a have "r = fst (get_frames p n (ram m))"
        by (simp add: split_beta)
      with Cons.prems(2) show ?thesis
        by (simp add: get_frames_result_in_range)
    next
      case (ReleaseFrames h)
      with a show ?thesis by simp
    qed
  qed
qed

text \<open>
  Claim C9. A self-hosted pool constructed over \<open>[B, B + N)\<close> keeps
  \<open>k = needed_info_frames(N)\<close> frames for its map. Whatever sequence of \<open>get_frames\<close>
  and \<open>release_frames\<close> calls follows, every frame that \<open>get_frames\<close> hands out, that
  is every nonzero value it returns, lies in the usable range and outside \<open>[B, B + k)\<close>.
  The failure value 0 lies outside \<open>[B, B + k)\<close> as well unless \<open>B\<close> is 0.
\<close>

theorem metadata_frames_never_returned:
  assumes "FRAME_SIZE \<noteq> 0"
    and "ContFramePool_new FRAME_SIZE B N 0 m0 = Inr (p, m1)"
    and "r \<in> set (fst (run_calls p cs m1))"
  shows "(r \<noteq> 0 \<longrightarrow> in_range p r)
       \<and> (r \<noteq> 0 \<or> B \<noteq> 0 \<longrightarrow> \<not> (B \<le> r \<and> r < B + needed_info_frames FRAME_SIZE N))"
proof (cases "r = 0")
  case True
  then show ?thesis by auto
next
  case False
  with assms(3) have r: "in_range p r"
    by (rule run_calls_results_in_range)
  from new_init(1) [OF assms(2)] have "base_frame_no p = B + needed_info_frames FRAME_SIZE N"
    by (rule init_fields(3)) simp
  with r have "B + needed_info_frames FRAME_SIZE N \<le> r"
    by (simp add: in_range_def)
  with r show ?thesis by auto
qed

theorem metadata_frames_never_returned_witness:
  "(4096 :: ulong) \<noteq> 0 \<and>
   (case ContFramePool_new 4096 8 8 0 \<lparr>ram = (\<lambda>_. 255), pools = [], console = []\<rparr> of
      Inl e \<Rightarrow> False
    | Inr (p, m1) \<Rightarrow>
        fst (run_calls p [GetFrames 3, GetFrames 2, ReleaseFrames 9, GetFrames 1, GetFrames 7] m1)
          = [9, 12, 9, 0] \<and>
        in_range p 12 \<and> needed_info_frames 4096 8 = 1 \<and>
        \<not> ((8 :: ulong) \<le> 12 \<and> (12 :: ulong) < 8 + needed_info_frames 4096 8) \<and>
        \<not> ((8 :: ulong) \<le> 0 \<and> (0 :: ulong) < 8 + needed_info_frames 4096 8))"
proof -
  let ?m0 = "\<lparr>ram = (\<lambda>_. 255), pools = [], console = []\<rparr> :: machine"
  let ?cs = "[GetFrames 3, GetFrames 2, ReleaseFrames 9, GetFrames 1, GetFrames 7]"
  obtain p m1 where new: "ContFramePool_new 4096 8 8 0 ?m0 = Inr (p, m1)"
    by (cases "ContFramePool_init 4096 8 8 0 (\<lambda>_. 255)") (simp add: ContFramePool_new_def)
  have fs: "(4096 :: ulong) \<noteq> 0" by simp
  from new have p: "p = \<lparr>base_frame_no = 9, n_frames = 7, info_frame_no = 0, bitmap = 32768,
      bitmap_size = 2\<rparr>"
    by (auto simp: ContFramePool_new_def ContFramePool_init_def needed_info_frames_def Let_def)
  from new have m1: "m1 = \<lparr>ram = snd (ContFramePool_init 4096 8 8 0 (\<lambda>_. 255)), pools = [p],
      console = [''Contiguous Frame Pool initialized'' @ [CHR 0x0A]]\<rparr>"
    by (auto simp: ContFramePool_new_def split: prod.splits)
  have rs: "fst (run_calls p ?cs m1) = [9, 12, 9, 0]"
    unfolding m1 unfolding p
    by (simp add: ContFramePool_init_def needed_info_frames_def ctor_mark.simps ctor_zero.simps
        get_frames_def get_frames_scan.simps get_frames_mark.simps release_frames_def
        release_walk.simps get_state_def set_state_def Let_def state_code_def state_of_code_def)
  then have mem12: "12 \<in> set (fst (run_calls p ?cs m1))"
    and mem0: "0 \<in> set (fst (run_calls p ?cs m1))"
    by simp_all
  from metadata_frames_never_returned [OF fs new mem12]
  have "in_range p 12 \<and> \<not> ((8 :: ulong) \<le> 12 \<and> (12 :: ulong) < 8 + needed_info_frames 4096 8)"
    by simp
  moreover from metadata_frames_never_returned [OF fs new mem0]
  have "\<not> ((8 :: ulong) \<le> 0 \<and> (0 :: ulong) < 8 + needed_info_frames 4096 8)"
    by simp
  moreover have "needed_info_frames 4096 8 = 1"
    by (simp add: needed_info_frames_def)
  ultimately show ?thesis
    using rs by (simp add: new)
qed

section \<open>What a release writes\<close>

lemma release_walk_fields:
  assumes fits: "pool_fits p" and lo: "base_frame_no p \<le> f"
    and away: "\<forall>g. in_range p g \<and> f \<le> g \<and> (\<forall>y. f \<le> y \<and> y \<le> g \<longrightarrow> get_state p mem y = Used)
                 \<longrightarrow> slot_bit p g \<noteq> slot_bit p x"
  shows "get_state p (release_walk p (base_frame_no p + n_frames p) f mem) x = get_state p mem x"
  using fits lo away
proof (induction p "base_frame_no p + n_frames p" f mem rule: release_walk.induct)
  case (1 p f mem)
  let ?e = "base_frame_no p + n_frames p"
  show ?case
  proof (cases "f < ?e \<and> get_state p mem f = Used")
    case False
    then have "release_walk p ?e f mem = mem"
      by (subst release_walk.simps) auto
    then show ?thesis by simp
  next
    case True
    then have lt: "f < ?e" and used: "get_state p mem f = Used"
      by simp_all
    from lt "1.prems"(2) have rf: "in_range p f"
      by (simp add: in_range_def)
    from lt have uf1: "unat (f + 1) = Suc (unat f)"
      by (rule unat_succ_less)
    from "1.prems"(2) uf1 have b1: "base_frame_no p \<le> f + 1"
      by (simp add: word_le_nat_alt)
    have le: "f + 1 \<le> y \<longleftrightarrow> f \<le> y \<and> y \<noteq> f" for y
      using uf1 by (auto simp: word_le_nat_alt word_unat_eq_iff)
    let ?mem1 = "set_state p mem f Free"
    have upd: "get_state p ?mem1 y = (if y = f then Free else get_state p mem y)"
      if "in_range p y" for y
      using "1.prems"(1) rf that by (rule frame_update)
    have "slot_bit p f \<noteq> slot_bit p x"
      using "1.prems"(3) rf used by auto
    then have here: "get_state p ?mem1 x = get_state p mem x"
      by (rule get_set_other)
    have away1: "\<forall>g. in_range p g \<and> f + 1 \<le> g \<and>
          (\<forall>y. f + 1 \<le> y \<and> y \<le> g \<longrightarrow> get_state p ?mem1 y = Used)
        \<longrightarrow> slot_bit p g \<noteq> slot_bit p x"
    proof (intro allI impI)
      fix g
      assume g: "in_range p g \<and> f + 1 \<le> g \<and>
          (\<forall>y. f + 1 \<le> y \<and> y \<le> g \<longrightarrow> get_state p ?mem1 y = Used)"
      then have rg: "in_range p g" and fg: "f \<le> g" "g \<noteq> f"
        by (simp_all add: le)
      have "get_state p mem y = Used" if y: "f \<le> y" "y \<le> g" for y
      proof (cases "y = f")
        case True
        with used show ?thesis by simp
      next
        case False
        from y rg "1.prems"(2) have ry: "in_range p y"
          by (auto simp: in_range_def)
        from g y False have "get_state p ?mem1 y = Used"
          by (simp add: le)
        with False show ?thesis
          by (simp add: upd [OF ry])
      qed
      with rg fg(1) "1.prems"(3) show "slot_bit p g \<noteq> slot_bit p x"
        by blast
    qed
    have "release_walk p ?e f mem = release_walk p ?e (f + 1) ?mem1"
      using True by (subst release_walk.simps) simp
    then have "get_state p (release_walk p ?e f mem) x =
        get_state p (release_walk p ?e (f + 1) ?mem1) x"
      by simp
    also have "\<dots> = get_state p ?mem1 x"
      by (rule "1.hyps" [OF True "1.prems"(1) b1 away1])
    finally show ?thesis
      using here by simp
  qed
qed

lemma release_walk_bytes:
  assumes fits: "pool_fits p" and lo: "base_frame_no p \<le> f"
    and away: "\<forall>g. in_range p g \<and> f \<le> g \<and> (\<forall>y. f \<le> y \<and> y \<le> g \<longrightarrow> get_state p mem y = Used)
                 \<longrightarrow> a \<noteq> map_byte p g"
  shows "release_walk p (base_frame_no p + n_frames p) f mem a = mem a"
  using fits lo away
proof (induction p "base_frame_no p + n_frames p" f mem rule: release_walk.induct)
  case (1 p f mem)
  let ?e = "base_frame_no p + n_frames p"
  show ?case
  proof (cases "f < ?e \<and> get_state p mem f = Used")
    case False
    then have "release_walk p ?e f mem = mem"
      by (subst release_walk.simps) auto
    then show ?thesis by simp
  next
    case True
    then have lt: "f < ?e" and used: "get_state p mem f = Used"
      by simp_all
    from lt "1.prems"(2) have rf: "in_range p f"
      by (simp add: in_range_def)
    from lt have uf1: "unat (f + 1) = Suc (unat f)"
      by (rule unat_succ_less)
    from "1.prems"(2) uf1 have b1: "base_frame_no p \<le> f + 1"
      by (simp add: word_le_nat_alt)
    have le: "f + 1 \<le> y \<longleftrightarrow> f \<le> y \<and> y \<noteq> f" for y
      using uf1 by (auto simp: word_le_nat_alt word_unat_eq_iff)
    let ?mem1 = "set_state p mem f Free"
    have upd: "get_state p ?mem1 y = (if y = f then Free else get_state p mem y)"
      if "in_range p y" for y
      using "1.prems"(1) rf that by (rule frame_update)
    have "a \<noteq> map_byte p f"
      using "1.prems"(3) rf used by auto
    then have here: "?mem1 a = mem a"
      by (rule set_state_elsewhere)
    have away1: "\<forall>g. in_range p g \<and> f + 1 \<le> g \<and>
          (\<forall>y. f + 1 \<le> y \<and> y \<le> g \<longrightarrow> get_state p ?mem1 y = Used)
        \<longrightarrow> a \<noteq> map_byte p g"
    proof (intro allI impI)
      fix g
      assume g: "in_range p g \<and> f + 1 \<le> g \<and>
          (\<forall>y. f + 1 \<le> y \<and> y \<le> g \<longrightarrow> get_state p ?mem1 y = Used)"
      then have rg: "in_range p g" and fg: "f \<le> g" "g \<noteq> f"
        by (simp_all add: le)
      have "get_state p mem y = Used" if y: "f \<le> y" "y \<le> g" for y
      proof (cases "y = f")
        case True
        with used show ?thesis by simp
      next
        case False
        from y rg "1.prems"(2) have ry: "in_range p y"
          by (auto simp: in_range_def)
        from g y False have "get_state p ?mem1 y = Used"
          by (simp add: le)
        with False show ?thesis
          by (simp add: upd [OF ry])
      qed
      with rg fg(1) "1.prems"(3) show "a \<noteq> map_byte p g"
        by blast
    qed
    have "release_walk p ?e f mem a = release_walk p ?e (f + 1) ?mem1 a"
      using True by (subst release_walk.simps) simp
    also have "\<dots> = ?mem1 a"
      by (rule "1.hyps" [OF True "1.prems"(1) b1 away1])
    finally show ?thesis
      using here by simp
  qed
qed

text \<open>The walk of a release, started after the head: both lemmas in terms of the released frames.\<close>

lemma released_from_walk:
  assumes fits: "pool_fits p" and h: "in_range p h"
    and g: "in_range p g" "h + 1 \<le> g"
    and used: "\<forall>y. h + 1 \<le> y \<and> y \<le> g \<longrightarrow> get_state p (set_state p mem h Free) y = Used"
  shows "released p mem h g"
proof -
  from h have lt: "h < base_frame_no p + n_frames p" and lo: "base_frame_no p \<le> h"
    by (simp_all add: in_range_def)
  from lt have uh1: "unat (h + 1) = Suc (unat h)"
    by (rule unat_succ_less)
  have le: "h + 1 \<le> y \<longleftrightarrow> h < y" for y
    using uh1 by (auto simp: word_le_nat_alt word_less_nat_alt)
  have "get_state p mem y = Used" if y: "h < y" "y \<le> g" for y
  proof -
    from y g(1) lo have ry: "in_range p y"
      by (auto simp: in_range_def)
    from used y have "get_state p (set_state p mem h Free) y = Used"
      by (simp add: le)
    moreover from y(1) have "y \<noteq> h" by auto
    ultimately show ?thesis
      by (simp add: frame_update [OF fits h ry])
  qed
  moreover from g(2) have "h \<le> g"
    by (simp add: le)
  ultimately show ?thesis
    by (simp add: released_def)
qed

lemma release_fields:
  assumes fits: "pool_fits p" and h: "in_range p h"
    and away: "\<forall>g. in_range p g \<and> released p mem h g \<longrightarrow> slot_bit p g \<noteq> slot_bit p x"
  shows "get_state p (release_walk p (base_frame_no p + n_frames p) (h + 1) (set_state p mem h Free)) x
     = get_state p mem x"
proof -
  let ?mem1 = "set_state p mem h Free"
  from h have lt: "h < base_frame_no p + n_frames p" and lo: "base_frame_no p \<le> h"
    by (simp_all add: in_range_def)
  from lt have "unat (h + 1) = Suc (unat h)"
    by (rule unat_succ_less)
  with lo have b1: "base_frame_no p \<le> h + 1"
    by (simp add: word_le_nat_alt)
  have "released p mem h h"
    by (auto simp: released_def)
  with away h have "slot_bit p h \<noteq> slot_bit p x" by blast
  then have here: "get_state p ?mem1 x = get_state p mem x"
    by (rule get_set_other)
  have "\<forall>g. in_range p g \<and> h + 1 \<le> g \<and>
          (\<forall>y. h + 1 \<le> y \<and> y \<le> g \<longrightarrow> get_state p ?mem1 y = Used)
        \<longrightarrow> slot_bit p g \<noteq> slot_bit p x"
    using away released_from_walk [OF fits h] by blast
  with fits b1 have "get_state p (release_walk p (base_frame_no p + n_frames p) (h + 1) ?mem1) x
      = get_state p ?mem1 x"
    by (rule release_walk_fields)
  with here show ?thesis by simp
qed

lemma release_bytes:
  assumes fits: "pool_fits p" and h: "in_range p h"
    and away: "\<forall>g. in_range p g \<and> released p mem h g \<longrightarrow> a \<noteq> map_byte p g"
  shows "release_walk p (base_frame_no p + n_frames p) (h + 1) (set_state p mem h Free) a = mem a"
proof -
  let ?mem1 = "set_state p mem h Free"
  from h have lt: "h < base_frame_no p + n_frames p" and lo: "base_frame_no p \<le> h"
    by (simp_all add: in_range_def)
  from lt have "unat (h + 1) = Suc (unat h)"
    by (rule unat_succ_less)
  with lo have b1: "base_frame_no p \<le> h + 1"
    by (simp add: word_le_nat_alt)
  have "released p mem h h"
    by (auto simp: released_def)
  with away h have "a \<noteq> map_byte p h" by blast
  then have here: "?mem1 a = mem a"
    by (rule set_state_elsewhere)
  have "\<forall>g. in_range p g \<and> h + 1 \<le> g \<and>
          (\<forall>y. h + 1 \<le> y \<and> y \<le> g \<longrightarrow> get_state p ?mem1 y = Used)
        \<longrightarrow> a \<noteq> map_byte p g"
    using away released_from_walk [OF fits h] by blast
  with fits b1 have "release_walk p (base_frame_no p + n_frames p) (h + 1) ?mem1 a = ?mem1 a"
    by (rule release_walk_bytes)
  with here show ?thesis by simp
qed

text \<open>
  Claim C3. When \<open>h\<close> lies in the usable range of a registered pool, the only one whose
  range holds it, and reads HoS there, \<open>release_frames(h)\<close> sets to Free the frame
  \<open>h\<close> and the unbroken stretch of Used frames after it, up to the first frame that is
  not Used or to the end of the range. Every other frame of the pool, the frame the walk
  stops at included, keeps its state. Nothing else is written: every field of the map
  that is not the field of a released frame keeps its value, the field after the last
  frame of the range among them; every byte of memory that holds no field of a released
  frame is unchanged; the frames of a pool whose map lies apart keep their states;
  registry and console are untouched. The pool has at most \<open>2^31\<close> frames, so that no
  two of its frames share a field of the map.
\<close>

theorem release_frames_frees_run:
  assumes "p \<in> set (pools m)" and "in_range p h" and "get_state p (ram m) h = HoS"
    and "\<forall>q \<in> set (pools m). in_range q h \<longrightarrow> q = p"
    and "pool_fits p"
  shows "(\<forall>g. in_range p g \<longrightarrow>
            get_state p (ram (release_frames h m)) g =
              (if released p (ram m) h g then Free else get_state p (ram m) g))
       \<and> (\<forall>x. (\<forall>g. in_range p g \<and> released p (ram m) h g \<longrightarrow> slot_bit p g \<noteq> slot_bit p x) \<longrightarrow>
            get_state p (ram (release_frames h m)) x = get_state p (ram m) x)
       \<and> (\<forall>a. (\<forall>g. in_range p g \<and> released p (ram m) h g \<longrightarrow> a \<noteq> map_byte p g) \<longrightarrow>
            ram (release_frames h m) a = ram m a)
       \<and> (unat (n_frames p) < 2 ^ 31 \<longrightarrow>
            get_state p (ram (release_frames h m)) (base_frame_no p + n_frames p) =
              get_state p (ram m) (base_frame_no p + n_frames p))
       \<and> (\<forall>q f. apart p q \<and> in_range q f \<longrightarrow>
            get_state q (ram (release_frames h m)) f = get_state q (ram m) f)
       \<and> pools (release_frames h m) = pools m
       \<and> console (release_frames h m) = console m"
proof -
  let ?walk = "release_walk p (base_frame_no p + n_frames p) (h + 1) (set_state p (ram m) h Free)"
  have "release_frames h m = m\<lparr>ram := ?walk\<rparr>"
    using assms(1-4) by (rule release_frames_owner)
  then have ram: "ram (release_frames h m) = ?walk"
    and reg: "pools (release_frames h m) = pools m"
    and con: "console (release_frames h m) = console m"
    by simp_all
  have inside: "\<forall>g. in_range p g \<longrightarrow>
      get_state p ?walk g = (if released p (ram m) h g then Free else get_state p (ram m) g)"
    using release_post [OF assms(5,2)] by blast
  have fields: "\<forall>x. (\<forall>g. in_range p g \<and> released p (ram m) h g \<longrightarrow> slot_bit p g \<noteq> slot_bit p x) \<longrightarrow>
      get_state p ?walk x = get_state p (ram m) x"
    using release_fields [OF assms(5,2)] by blast
  have bytes: "\<forall>a. (\<forall>g. in_range p g \<and> released p (ram m) h g \<longrightarrow> a \<noteq> map_byte p g) \<longrightarrow>
      ?walk a = ram m a"
    using release_bytes [OF assms(5,2)] by blast
  have past: "get_state p ?walk (base_frame_no p + n_frames p) =
      get_state p (ram m) (base_frame_no p + n_frames p)" if small: "unat (n_frames p) < 2 ^ 31"
  proof -
    let ?e = "base_frame_no p + n_frames p"
    have "slot_bit p g \<noteq> slot_bit p ?e" if g: "in_range p g" for g
    proof
      assume eq: "slot_bit p g = slot_bit p ?e"
      from g have "unat (g - base_frame_no p) < unat (n_frames p)"
        by (rule in_range_rel)
      with small have "unat (g - base_frame_no p) < 2 ^ 31" by simp
      moreover from small have "unat (?e - base_frame_no p) < 2 ^ 31" by simp
      ultimately have "g = ?e" using eq by (rule slot_bit_inj)
      with g show False by (simp add: in_range_def)
    qed
    with fields show ?thesis by blast
  qed
  have other: "get_state q ?walk f = get_state q (ram m) f" if "apart p q" "in_range q f" for q f
  proof (rule get_state_byte)
    from that have "\<forall>g. in_range p g \<and> released p (ram m) h g \<longrightarrow> map_byte q f \<noteq> map_byte p g"
      unfolding apart_def by metis
    with bytes show "?walk (map_byte q f) = ram m (map_byte q f)" by blast
  qed
  from inside fields bytes past other reg con show ?thesis
    unfolding ram by blast
qed

theorem release_frames_frees_run_witness:
  "map (get_state \<lparr>base_frame_no = 8, n_frames = 8, info_frame_no = 1, bitmap = 4096, bitmap_size = 2\<rparr>
         ((\<lambda>_. 0)(4096 := 88, 4097 := 98, 4098 := 1, 8192 := 6)))
       [8, 9, 10, 11, 12, 13, 14, 15, 16]
     = [Free, HoS, Used, Used, HoS, Free, HoS, Used, Used]
   \<and> map (get_state \<lparr>base_frame_no = 8, n_frames = 8, info_frame_no = 1, bitmap = 4096, bitmap_size = 2\<rparr>
         (ram (release_frames 14
            \<lparr>ram = (\<lambda>_. 0)(4096 := 88, 4097 := 98, 4098 := 1, 8192 := 6),
             pools = [\<lparr>base_frame_no = 8, n_frames = 8, info_frame_no = 1, bitmap = 4096, bitmap_size = 2\<rparr>,
                      \<lparr>base_frame_no = 100, n_frames = 4, info_frame_no = 2, bitmap = 8192, bitmap_size = 1\<rparr>],
             console = []\<rparr>)))
       [8, 9, 10, 11, 12, 13, 14, 15, 16]
     = [Free, HoS, Used, Used, HoS, Free, Free, Free, Used]
   \<and> ram (release_frames 14
            \<lparr>ram = (\<lambda>_. 0)(4096 := 88, 4097 := 98, 4098 := 1, 8192 := 6),
             pools = [\<lparr>base_frame_no = 8, n_frames = 8, info_frame_no = 1, bitmap = 4096, bitmap_size = 2\<rparr>,
                      \<lparr>base_frame_no = 100, n_frames = 4, info_frame_no = 2, bitmap = 8192, bitmap_size = 1\<rparr>],
             console = []\<rparr>) 4098 = 1
   \<and> map (get_state \<lparr>base_frame_no = 100, n_frames = 4, info_frame_no = 2, bitmap = 8192, bitmap_size = 1\<rparr>
         (ram (release_frames 14
            \<lparr>ram = (\<lambda>_. 0)(4096 := 88, 4097 := 98, 4098 := 1, 8192 := 6),
             pools = [\<lparr>base_frame_no = 8, n_frames = 8, info_frame_no = 1, bitmap = 4096, bitmap_size = 2\<rparr>,
                      \<lparr>base_frame_no = 100, n_frames = 4, info_frame_no = 2, bitmap = 8192, bitmap_size = 1\<rparr>],
             console = []\<rparr>)))
       [100, 101, 102]
     = [HoS, Used, Free]"
proof -
  let ?P = "\<lparr>base_frame_no = 8, n_frames = 8, info_frame_no = 1, bitmap = 4096, bitmap_size = 2\<rparr>
      :: ContFramePool"
  let ?Q = "\<lparr>base_frame_no = 100, n_frames = 4, info_frame_no = 2, bitmap = 8192, bitmap_size = 1\<rparr>
      :: ContFramePool"
  let ?ram = "(\<lambda>_. 0)(4096 := 88, 4097 := 98, 4098 := 1, 8192 := 6) :: memory"
  let ?M = "\<lparr>ram = ?ram, pools = [?P, ?Q], console = []\<rparr> :: machine"
  let ?ram' = "ram (release_frames 14 ?M)"
  have before: "map (get_state ?P ?ram) [8, 9, 10, 11, 12, 13, 14, 15, 16]
      = [Free, HoS, Used, Used, HoS, Free, HoS, Used, Used]"
    by (simp add: get_state_def Let_def state_of_code_def)
  have beforeQ: "map (get_state ?Q ?ram) [100, 101, 102] = [HoS, Used, Free]"
    by (simp add: get_state_def Let_def state_of_code_def)
  have h1: "?P \<in> set (pools ?M)" by simp
  have h2: "in_range ?P 14" by (simp add: in_range_def)
  have h3: "get_state ?P (ram ?M) 14 = HoS" using before by simp
  have h4: "\<forall>q \<in> set (pools ?M). in_range q 14 \<longrightarrow> q = ?P"
    by (simp add: in_range_def)
  have h5: "pool_fits ?P" and fq: "pool_fits ?Q" by (simp_all add: pool_fits_def)
  note concl = release_frames_frees_run [OF h1 h2 h3 h4 h5]
  have bytesP: "map_byte ?P g = 4096 \<or> map_byte ?P g = 4097" if "in_range ?P g" for g
  proof -
    from map_byte_offset [OF that h5]
    obtain i where i: "4 * i < unat (n_frames ?P)" "map_byte ?P g = bitmap ?P + of_nat i"
      by blast
    from i(1) have "i = 0 \<or> i = 1" by auto
    with i(2) show ?thesis by auto
  qed
  have bytesQ: "map_byte ?Q f = 8192" if "in_range ?Q f" for f
  proof -
    from map_byte_offset [OF that fq]
    obtain j where j: "4 * j < unat (n_frames ?Q)" "map_byte ?Q f = bitmap ?Q + of_nat j"
      by blast
    from j(1) have "j = 0" by simp
    with j(2) show ?thesis by simp
  qed
  have ap: "apart ?P ?Q"
    unfolding apart_def using bytesP bytesQ by fastforce
  have x15: "x = 15" if "14 < x" "x \<le> 15" for x :: ulong
    using that by unat_arith
  have r14: "released ?P (ram ?M) 14 14"
    by (auto simp: released_def)
  have r15: "released ?P (ram ?M) 14 15"
    using before by (auto simp: released_def dest: x15)
  have n12: "\<not> released ?P (ram ?M) 14 12" and n13: "\<not> released ?P (ram ?M) 14 13"
    by (simp_all add: released_def)
  have in12: "in_range ?P 12" and in13: "in_range ?P 13" and in15: "in_range ?P 15"
    by (simp_all add: in_range_def)
  from concl h2 r14 have s14: "get_state ?P ?ram' 14 = Free" by simp
  from concl in15 r15 have s15: "get_state ?P ?ram' 15 = Free" by simp
  from concl in12 n12 have s12: "get_state ?P ?ram' 12 = get_state ?P ?ram 12" by simp
  from concl in13 n13 have s13: "get_state ?P ?ram' 13 = get_state ?P ?ram 13" by simp
  have "unat (n_frames ?P) < 2 ^ 31" by simp
  with concl have "get_state ?P ?ram' (base_frame_no ?P + n_frames ?P)
      = get_state ?P (ram ?M) (base_frame_no ?P + n_frames ?P)"
    by blast
  then have s16: "get_state ?P ?ram' 16 = get_state ?P ?ram 16" by simp
  have "\<forall>g. in_range ?P g \<and> released ?P (ram ?M) 14 g \<longrightarrow> 4098 \<noteq> map_byte ?P g"
    using bytesP by fastforce
  with concl have b4098: "?ram' 4098 = ram ?M 4098" by blast
  have sQ: "get_state ?Q ?ram' f = get_state ?Q (ram ?M) f" if "in_range ?Q f" for f
    using concl ap that by blast
  have "in_range ?Q 100" "in_range ?Q 101" "in_range ?Q 102"
    by (simp_all add: in_range_def)
  then have afterQ: "map (get_state ?Q ?ram') [100, 101, 102] = [HoS, Used, Free]"
    using beforeQ by (simp add: sQ)
  have rest: "map (get_state ?P ?ram') [8, 9, 10, 11] = [Free, HoS, Used, Used]"
    by (simp add: release_frames_def release_walk.simps in_range_def get_state_def set_state_def
        Let_def state_code_def state_of_code_def)
  from before rest s12 s13 s14 s15 s16 b4098 afterQ show ?thesis
    by simp
qed

section \<open>Round trip\<close>

lemma free_run_frames:
  assumes "unat (base_frame_no p) \<le> unat s"
    and "unat s + N \<le> unat (base_frame_no p + n_frames p)"
    and "\<And>g. unat s \<le> unat g \<Longrightarrow> unat g < unat s + N \<Longrightarrow> get_state p mem g = Free"
  shows "free_run p mem s N"
proof (cases "N = 0")
  case True
  then show ?thesis by (simp add: free_run_def)
next
  case False
  have "isfree p mem k" if "unat s \<le> k" "k < unat s + N" for k
  proof -
    have "unat (base_frame_no p + n_frames p) < 2 ^ 32"
      using unsigned_less [of "base_frame_no p + n_frames p"] by simp
    with that(2) assms(2) have "k < 2 ^ 32" by linarith
    then have "unat (of_nat k :: ulong) = k"
      by (subst unat_of_nat) simp
    with that assms(3) [of "of_nat k"] show ?thesis
      by (simp add: isfree_def)
  qed
  then have "fits p mem N (unat s)"
    by (simp add: fits_def)
  with False assms(1,2) show ?thesis
    by (simp add: free_run_fits)
qed

lemma free_run_bounds:
  assumes "free_run p mem s N" "N \<noteq> 0"
  shows "unat (base_frame_no p) \<le> unat s"
    and "unat s + N \<le> unat (base_frame_no p + n_frames p)"
  using assms by (simp_all add: free_run_fits)

lemma in_range_between:
  assumes "unat (base_frame_no p) \<le> unat s"
    and "unat s + N \<le> unat (base_frame_no p + n_frames p)"
    and "unat s \<le> unat g" "unat g < unat s + N"
  shows "in_range p g"
  using assms by (simp add: in_range_nat)

text \<open>
  Claim C8. When \<open>get_frames(n)\<close> succeeds with base frame \<open>f\<close>, releasing \<open>f\<close> and
  asking for \<open>n\<close> frames again, with nothing in between, returns \<open>f\<close> again. The pool
  is registered, it is the only registered pool whose range holds \<open>f\<close>, and it has at
  most \<open>2^31\<close> frames. The state of the map before the first call is arbitrary.
\<close>

theorem release_then_get_frames_again:
  assumes fits: "pool_fits p" and reg: "p \<in> set (pools m)"
    and own: "\<forall>q \<in> set (pools m). in_range q f \<longrightarrow> q = p"
    and res: "get_frames p n_req (ram m) = (f, mem1)" and nz: "f \<noteq> 0"
  shows "fst (get_frames p n_req (ram (release_frames f (m\<lparr>ram := mem1\<rparr>)))) = f"
proof -
  let ?N = "unat n_req"
  let ?mem = "ram m"
  from res nz have n: "n_req \<noteq> 0"
    by (auto simp: get_frames_def)
  then have N: "?N \<noteq> 0" by (simp add: unat_eq_0)
  from get_frames_cases [OF n, of p ?mem] res nz
  have run: "free_run p ?mem f ?N"
    and least: "\<And>s. free_run p ?mem s ?N \<Longrightarrow> f \<le> s"
    by auto
  note b = free_run_bounds [OF run N]
  from run N have rf: "in_range p f" by (rule free_run_in_range)
  let ?W = "\<lambda>g :: ulong. unat f \<le> unat g \<and> unat g < unat f + ?N"
  have post1: "get_state p mem1 g =
      (if ?W g then if g = f then HoS else Used else get_state p ?mem g)" if "in_range p g" for g
    using fits that n run res by (rule get_frames_post)
  from N have head: "get_state p mem1 f = HoS"
    by (simp add: post1 [OF rf])
  let ?m1 = "m\<lparr>ram := mem1\<rparr>"
  let ?mem2 = "ram (release_frames f ?m1)"
  have pm: "pools ?m1 = pools m" and rm: "ram ?m1 = mem1"
    by simp_all
  have reg1: "p \<in> set (pools ?m1)"
    unfolding pm by (rule reg)
  have own1: "\<forall>q \<in> set (pools ?m1). in_range q f \<longrightarrow> q = p"
    unfolding pm by (rule own)
  have head1: "get_state p (ram ?m1) f = HoS"
    unfolding rm by (rule head)
  have "release_frames f ?m1 =
      ?m1\<lparr>ram := release_walk p (base_frame_no p + n_frames p) (f + 1)
                      (set_state p (ram ?m1) f Free)\<rparr>"
    using reg1 rf head1 own1 by (rule release_frames_owner)
  then have mem2: "?mem2 =
      release_walk p (base_frame_no p + n_frames p) (f + 1) (set_state p mem1 f Free)"
    by simp
  have post2: "get_state p ?mem2 g =
      (if released p mem1 f g then Free else get_state p mem1 g)" if "in_range p g" for g
    unfolding mem2 using fits rf that by (rule release_post)
  have inW: "in_range p g" if "?W g" for g
    using b that by (blast intro: in_range_between)
  have again: "free_run p ?mem2 f ?N"
  proof (rule free_run_frames [OF b])
    fix g :: ulong assume g: "unat f \<le> unat g" "unat g < unat f + ?N"
    then have rg: "in_range p g" by (simp add: inW)
    have "get_state p mem1 x = Used" if "f < x" "x \<le> g" for x
    proof -
      from that g have "?W x" "x \<noteq> f"
        by (auto simp: word_less_nat_alt word_le_nat_alt)
      then show ?thesis
        by (simp add: post1 [OF inW])
    qed
    moreover from g(1) have "f \<le> g" by (simp add: word_le_nat_alt)
    ultimately have "released p mem1 f g"
      by (simp add: released_def)
    then show "get_state p ?mem2 g = Free"
      by (simp add: post2 [OF rg])
  qed
  have lower: "f \<le> s" if s: "free_run p ?mem2 s ?N" for s
  proof (rule ccontr)
    assume "\<not> f \<le> s"
    then have sf: "unat s < unat f" by (simp add: word_le_nat_alt)
    note bs = free_run_bounds [OF s N]
    have "free_run p ?mem s ?N"
    proof (rule free_run_frames [OF bs])
      fix g :: ulong assume g: "unat s \<le> unat g" "unat g < unat s + ?N"
      from bs g have rg: "in_range p g" by (rule in_range_between)
      from s g have free2: "get_state p ?mem2 g = Free" by (rule free_run_frame)
      show "get_state p ?mem g = Free"
      proof (cases "unat g < unat f")
        case True
        then have "\<not> released p mem1 f g"
          by (simp add: released_def word_le_nat_alt)
        with free2 have "get_state p mem1 g = Free"
          by (simp add: post2 [OF rg])
        with True show ?thesis
          by (simp add: post1 [OF rg])
      next
        case False
        with g sf have "unat f \<le> unat g" "unat g < unat f + ?N" by linarith+
        with run show ?thesis by (rule free_run_frame)
      qed
    qed
    then have "f \<le> s" by (rule least)
    with \<open>\<not> f \<le> s\<close> show False ..
  qed
  from get_frames_cases [OF n, of p ?mem2] again
  obtain s where "free_run p ?mem2 s ?N" "\<forall>s'. free_run p ?mem2 s' ?N \<longrightarrow> s \<le> s'"
    "fst (get_frames p n_req ?mem2) = s"
    by auto
  with again lower [of s] show ?thesis
    by auto
qed

theorem release_then_get_frames_again_witness:
  "fst (get_frames \<lparr>base_frame_no = 8, n_frames = 8, info_frame_no = 1, bitmap = 4096, bitmap_size = 2\<rparr>
          2 ((\<lambda>_. 0)(4096 := 34))) = 11
   \<and> fst (get_frames \<lparr>base_frame_no = 8, n_frames = 8, info_frame_no = 1, bitmap = 4096, bitmap_size = 2\<rparr> 2
        (ram (release_frames 11
           \<lparr>ram = snd (get_frames
                \<lparr>base_frame_no = 8, n_frames = 8, info_frame_no = 1, bitmap = 4096, bitmap_size = 2\<rparr>
                2 ((\<lambda>_. 0)(4096 := 34))),
            pools = [\<lparr>base_frame_no = 8, n_frames = 8, info_frame_no = 1, bitmap = 4096, bitmap_size = 2\<rparr>],
            console = []\<rparr>))) = 11"
proof -
  let ?P = "\<lparr>base_frame_no = 8, n_frames = 8, info_frame_no = 1, bitmap = 4096, bitmap_size = 2\<rparr>
      :: ContFramePool"
  let ?m = "\<lparr>ram = (\<lambda>_. 0)(4096 := 34), pools = [?P], console = []\<rparr> :: machine"
  have fits: "pool_fits ?P" by (simp add: pool_fits_def)
  have reg: "?P \<in> set (pools ?m)" by simp
  have own: "\<forall>q \<in> set (pools ?m). in_range q 11 \<longrightarrow> q = ?P" by simp
  have r: "fst (get_frames ?P 2 (ram ?m)) = 11"
    by (simp add: get_frames_def get_frames_scan.simps get_state_def Let_def state_of_code_def)
  then have res: "get_frames ?P 2 (ram ?m) = (11, snd (get_frames ?P 2 (ram ?m)))"
    by (metis prod.collapse)
  have nz: "(11 :: ulong) \<noteq> 0" by simp
  from release_then_get_frames_again [OF fits reg own res nz] r show ?thesis
    by simp
qed

section \<open>Metadata frames and mark\_inaccessible\<close>

text \<open>
  Claim C6, as stated, fails. It wants the constructor of a self-hosted pool to leave the
  metadata frames marked in the map, HoS for the first and Used for the rest, and to zero
  the remaining slots only. For a pool over frames 8 to 15 with \<open>FRAME_SIZE = 4096\<close>
  there is one metadata frame, frame 8. The marking loop writes Used for it, not HoS,
  and the zeroing loop then clears the whole map: the slot that held the mark reads Free.
\<close>

theorem constructor_marks_counterexample:
  "needed_info_frames 4096 8 = 1
   \<and> get_state \<lparr>base_frame_no = 8, n_frames = 8, info_frame_no = 0, bitmap = 32768, bitmap_size = 2\<rparr>
        (ctor_mark \<lparr>base_frame_no = 8, n_frames = 8, info_frame_no = 0, bitmap = 32768, bitmap_size = 2\<rparr>
           (needed_info_frames 4096 8) 0 (\<lambda>_. 0)) 8 = Used
   \<and> fst (ContFramePool_init 4096 8 8 0 (\<lambda>_. 0)) =
        \<lparr>base_frame_no = 9, n_frames = 7, info_frame_no = 0, bitmap = 32768, bitmap_size = 2\<rparr>
   \<and> get_state \<lparr>base_frame_no = 8, n_frames = 8, info_frame_no = 0, bitmap = 32768, bitmap_size = 2\<rparr>
        (snd (ContFramePool_init 4096 8 8 0 (\<lambda>_. 0))) 8 = Free
   \<and> snd (ContFramePool_init 4096 8 8 0 (\<lambda>_. 0)) 32768 = 0"
  by (simp add: ContFramePool_init_def needed_info_frames_def ctor_mark.simps ctor_zero.simps
      get_state_def set_state_def Let_def state_code_def state_of_code_def)

text \<open>
  Claim C6, amended. The constructor of a self-hosted pool over \<open>[base, base + count)\<close>
  computes \<open>k = needed_info_frames(count)\<close>, places the map at address
  \<open>base * FRAME_SIZE\<close>, shrinks the usable range to base \<open>base + k\<close> and count
  \<open>count - k\<close>, and zeroes the whole map: every frame of the usable range reads Free,
  and no metadata frame lies in the usable range.
\<close>

theorem constructor_self_hosted:
  assumes "FRAME_SIZE \<noteq> 0" and "2 * unat count + 7 < 2 ^ 32"
    and "ContFramePool_new FRAME_SIZE base count 0 m = Inr (p, m')"
  shows "base_frame_no p = base + needed_info_frames FRAME_SIZE count
       \<and> n_frames p = count - needed_info_frames FRAME_SIZE count
       \<and> bitmap p = base * FRAME_SIZE
       \<and> (\<forall>i. i < bitmap_size p \<longrightarrow> ram m' (bitmap p + i) = 0)
       \<and> (\<forall>f. in_range p f \<longrightarrow> get_state p (ram m') f = Free)
       \<and> (\<forall>f. base \<le> f \<and> f < base + needed_info_frames FRAME_SIZE count \<longrightarrow> \<not> in_range p f)"
proof -
  note init = new_init(1) [OF assms(3)]
  have b: "base_frame_no p = base + needed_info_frames FRAME_SIZE count"
    and n: "n_frames p = count - needed_info_frames FRAME_SIZE count"
    and a: "bitmap p = base * FRAME_SIZE"
    using init_fields(3,4,5) [OF init] by simp_all
  have z: "\<forall>i. i < bitmap_size p \<longrightarrow> ram m' (bitmap p + i) = 0"
    using init_zeroed [OF init] by blast
  have f: "\<forall>f. in_range p f \<longrightarrow> get_state p (ram m') f = Free"
    using init_usable_free [OF init assms(1,2)] by blast
  have o: "\<forall>f. base \<le> f \<and> f < base + needed_info_frames FRAME_SIZE count \<longrightarrow> \<not> in_range p f"
    by (auto simp: in_range_def b)
  from b n a z f o show ?thesis by blast
qed

theorem constructor_self_hosted_witness:
  "(4096 :: ulong) \<noteq> 0 \<and> 2 * unat (8 :: ulong) + 7 < 2 ^ 32 \<and>
   (case ContFramePool_new 4096 8 8 0 \<lparr>ram = (\<lambda>_. 255), pools = [], console = []\<rparr> of
      Inl e \<Rightarrow> False
    | Inr (p, m') \<Rightarrow>
        p = \<lparr>base_frame_no = 9, n_frames = 7, info_frame_no = 0, bitmap = 32768, bitmap_size = 2\<rparr> \<and>
        ram m' 32768 = 0 \<and> ram m' 32769 = 0 \<and>
        in_range p 9 \<and> get_state p (ram m') 9 = Free \<and>
        (8 :: ulong) < 8 + needed_info_frames 4096 8 \<and> \<not> in_range p 8)"
proof -
  obtain p m' where
    new: "ContFramePool_new 4096 8 8 0 \<lparr>ram = (\<lambda>_. 255), pools = [], console = []\<rparr> = Inr (p, m')"
    by (cases "ContFramePool_init 4096 8 8 0 (\<lambda>_. 255)") (simp add: ContFramePool_new_def)
  have fs: "(4096 :: ulong) \<noteq> 0" by simp
  have sz: "2 * unat (8 :: ulong) + 7 < 2 ^ 32" by simp
  have k: "needed_info_frames 4096 8 = 1"
    by (simp add: needed_info_frames_def)
  note concl = constructor_self_hosted [OF fs sz new]
  from new have sizep: "bitmap_size p = 2" and infop: "info_frame_no p = 0"
    by (auto simp: ContFramePool_new_def ContFramePool_init_def Let_def)
  from concl k sizep infop have p: "p = \<lparr>base_frame_no = 9, n_frames = 7, info_frame_no = 0,
      bitmap = 32768, bitmap_size = 2\<rparr>"
    by (cases p) simp
  from concl have z: "\<And>i. i < bitmap_size p \<Longrightarrow> ram m' (bitmap p + i) = 0"
    by blast
  from z [of 0] z [of 1] have "ram m' 32768 = 0" "ram m' 32769 = 0"
    by (simp_all add: p)
  moreover have r: "in_range p 9" by (simp add: p in_range_def)
  moreover from concl r have "get_state p (ram m') 9 = Free" by blast
  moreover have m8: "(8 :: ulong) \<le> 8 \<and> (8 :: ulong) < 8 + needed_info_frames 4096 8"
    by (simp add: k)
  moreover from concl m8 have "\<not> in_range p 8" by blast
  ultimately show ?thesis
    using p by (simp add: new k)
qed

text \<open>
  Claim C7. The claim wants \<open>mark_inaccessible(b, c)\<close> to set frame \<open>b\<close> to HoS and the
  frames after it to Used. The loop writes Used to every frame, the first included. On
  a pool over frames 8 to 15 with an empty map, \<open>mark_inaccessible(10, 2)\<close> leaves frame
  10 Used, not HoS. A run allocated just below then absorbs the marked frames: after
  \<open>get_frames(2)\<close> returns 8, \<open>release_frames(8)\<close> frees frames 8 to 11, and the
  console stays empty.
\<close>

theorem mark_inaccessible_writes_no_head:
  "map (get_state \<lparr>base_frame_no = 8, n_frames = 8, info_frame_no = 1, bitmap = 4096, bitmap_size = 2\<rparr>
         (mark_inaccessible
            \<lparr>base_frame_no = 8, n_frames = 8, info_frame_no = 1, bitmap = 4096, bitmap_size = 2\<rparr>
            10 2 (\<lambda>_. 0)))
       [8, 9, 10, 11, 12]
   = [Free, Free, Used, Used, Free]
   \<and> fst (get_frames \<lparr>base_frame_no = 8, n_frames = 8, info_frame_no = 1, bitmap = 4096, bitmap_size = 2\<rparr> 2
        (mark_inaccessible
            \<lparr>base_frame_no = 8, n_frames = 8, info_frame_no = 1, bitmap = 4096, bitmap_size = 2\<rparr>
            10 2 (\<lambda>_. 0))) = 8
   \<and> map (get_state \<lparr>base_frame_no = 8, n_frames = 8, info_frame_no = 1, bitmap = 4096, bitmap_size = 2\<rparr>
         (ram (release_frames 8
            \<lparr>ram = snd (get_frames
                 \<lparr>base_frame_no = 8, n_frames = 8, info_frame_no = 1, bitmap = 4096, bitmap_size = 2\<rparr> 2
                 (mark_inaccessible
                    \<lparr>base_frame_no = 8, n_frames = 8, info_frame_no = 1, bitmap = 4096, bitmap_size = 2\<rparr>
                    10 2 (\<lambda>_. 0))),
             pools = [\<lparr>base_frame_no = 8, n_frames = 8, info_frame_no = 1, bitmap = 4096, bitmap_size = 2\<rparr>],
             console = []\<rparr>)))
       [8, 9, 10, 11, 12]
   = [Free, Free, Free, Free, Free]
   \<and> console (release_frames 8
            \<lparr>ram = snd (get_frames
                 \<lparr>base_frame_no = 8, n_frames = 8, info_frame_no = 1, bitmap = 4096, bitmap_size = 2\<rparr> 2
                 (mark_inaccessible
                    \<lparr>base_frame_no = 8, n_frames = 8, info_frame_no = 1, bitmap = 4096, bitmap_size = 2\<rparr>
                    10 2 (\<lambda>_. 0))),
             pools = [\<lparr>base_frame_no = 8, n_frames = 8, info_frame_no = 1, bitmap = 4096, bitmap_size = 2\<rparr>],
             console = []\<rparr>) = []"
  by (simp add: mark_inaccessible_def mark_loop.simps get_frames_def get_frames_scan.simps
      get_frames_mark.simps release_frames_def release_walk.simps get_state_def set_state_def
      Let_def state_code_def state_of_code_def)

end
